theory Spec2Isabelle
  imports Complex_Main "HOL-Library.Word"
begin

unbundle bit_operations_syntax

section \<open>Strings and memory\<close>

text \<open>
  A C string is modelled by its content: the bytes before the terminating NUL. A pointer
  into a string is the remaining suffix, so \<open>s + n\<close> is \<open>drop n s\<close>. Reading \<open>s[i]\<close>
  gives the byte, and the terminator at the end of the content. The tests of the source
  are chains of \<open>&&\<close> in which a NUL byte fails every conjunct, so the source never
  reads behind the terminator; in the model such a read gives 0 as well and fails the
  same conjunct.
\<close>

type_synonym byte = "8 word"
type_synonym cstring = "byte list"

definition byte_at :: "cstring \<Rightarrow> nat \<Rightarrow> byte" where
  "byte_at s i = (if i < length s then s ! i else 0)"

text \<open>The string a pointer to a block of written memory denotes: the bytes before the first NUL.\<close>

definition c_str :: "byte list \<Rightarrow> cstring" where
  "c_str m = takeWhile (\<lambda>b. b \<noteq> 0) m"

text \<open>A string literal of the source, as bytes.\<close>

definition lit :: "string \<Rightarrow> cstring" where
  "lit s = map (\<lambda>c. of_nat (of_char c)) s"

text \<open>
  \<open>size_t\<close> is taken as the 64-bit unsigned type of an LP64 platform: values are
  naturals, and the two places where the source adds to or subtracts from a length wrap
  modulo \<open>2 ^ 64\<close>. \<open>U8J_SIZ\<close> is \<open>int\<close>, 32 bits wide.
\<close>

definition SIZE_RANGE :: nat where
  "SIZE_RANGE = 2 ^ 64"

definition size_add :: "nat \<Rightarrow> nat \<Rightarrow> nat" where
  "size_add a b = (a + b) mod SIZE_RANGE"

definition size_sub :: "nat \<Rightarrow> nat \<Rightarrow> nat" where
  "size_sub a b = nat ((int a - int b) mod int SIZE_RANGE)"

definition size_to_int :: "nat \<Rightarrow> int" where
  "size_to_int n = sint (word_of_nat n :: 32 word)"

definition int_to_size :: "int \<Rightarrow> nat" where
  "int_to_size i = nat (i mod int SIZE_RANGE)"

section \<open>String Transcoder (mujsutf8.h)\<close>

subsection \<open>CESU-8 to UTF-8\<close>

definition u8j__is_cesu8_smp :: "cstring \<Rightarrow> bool" where
  "u8j__is_cesu8_smp s \<longleftrightarrow>
     byte_at s 0 = 0xed \<and> (byte_at s 1 AND 0xf0) = 0xa0 \<and> (byte_at s 2 AND 0xc0) = 0x80 \<and>
     byte_at s 3 = 0xed \<and> (byte_at s 4 AND 0xf0) = 0xb0 \<and> (byte_at s 5 AND 0xc0) = 0x80"

text \<open>
  The four bytes \<open>dst[0..3]\<close> written for the surrogate pair at \<open>s\<close>. The source
  computes in \<open>int\<close> and stores into \<open>unsigned char\<close>; every intermediate value is
  below 256, so the byte operations agree.
\<close>

definition utf8_of_pair :: "cstring \<Rightarrow> byte list" where
  "utf8_of_pair s =
     (let top5 = (byte_at s 1 AND 0x0f) + 1 in
      [0xf0 OR drop_bit 2 top5,
       0x80 OR push_bit 4 (top5 AND 0x03) OR drop_bit 2 (byte_at s 2 AND 0x3f),
       0x80 OR push_bit 4 (byte_at s 2 AND 0x03) OR (byte_at s 4 AND 0x0f),
       byte_at s 5])"

text \<open>
  \<open>u8j_write_utf8\<close>: \<open>s\<close> is the source pointer, \<open>dst\<close> the bytes written so far. The
  result is everything written, the final NUL included.
\<close>

function u8j_write_utf8_loop :: "cstring \<Rightarrow> byte list \<Rightarrow> byte list" where
  "u8j_write_utf8_loop s dst =
     (if byte_at s 0 \<noteq> 0 then
        (if u8j__is_cesu8_smp s
         then u8j_write_utf8_loop (drop 6 s) (dst @ utf8_of_pair s)
         else u8j_write_utf8_loop (drop 1 s) (dst @ [byte_at s 0]))
      else dst @ [0])"
  by pat_completeness auto
termination
  by (relation "measure (\<lambda>(s, dst). length s)") (auto simp: byte_at_def split: if_splits)

declare u8j_write_utf8_loop.simps [simp del]

definition u8j_write_utf8 :: "cstring \<Rightarrow> byte list" where
  "u8j_write_utf8 cesu8_src = u8j_write_utf8_loop cesu8_src []"

text \<open>The counting loop of \<open>u8j_utf8_len\<close>: returns the final \<open>i\<close> and \<open>smp_count\<close>.\<close>

function u8j_utf8_len_loop :: "cstring \<Rightarrow> nat \<Rightarrow> nat \<Rightarrow> nat \<times> nat" where
  "u8j_utf8_len_loop cesu8 i smp_count =
     (if byte_at cesu8 i \<noteq> 0
      then u8j_utf8_len_loop cesu8 (i + 1)
             (if u8j__is_cesu8_smp (drop i cesu8) then smp_count + 1 else smp_count)
      else (i, smp_count))"
  by pat_completeness auto
termination
  by (relation "measure (\<lambda>(s, i, c). length s - i)") (auto simp: byte_at_def split: if_splits)

declare u8j_utf8_len_loop.simps [simp del]

text \<open>\<open>None\<close> is the NULL pointer.\<close>

fun u8j_utf8_len :: "cstring option \<Rightarrow> nat" where
  "u8j_utf8_len None = 0"
| "u8j_utf8_len (Some cesu8) =
     (case u8j_utf8_len_loop cesu8 0 0 of
        (i, smp_count) \<Rightarrow> if smp_count \<noteq> 0 then size_sub i (smp_count * 2) else 0)"

subsection \<open>UTF-8 to CESU-8\<close>

definition u8j__is_utf8_smp :: "cstring \<Rightarrow> bool" where
  "u8j__is_utf8_smp s \<longleftrightarrow>
     (byte_at s 0 AND 0xf8) = 0xf0 \<and>
     (byte_at s 1 AND 0xc0) = 0x80 \<and> (byte_at s 2 AND 0xc0) = 0x80 \<and>
     (byte_at s 3 AND 0xc0) = 0x80 \<and>
     ((byte_at s 0 AND 0x04) = 0) \<noteq>
       (((byte_at s 0 AND 0x03) OR (byte_at s 1 AND 0x30)) = 0)"

definition cesu8_of_smp :: "cstring \<Rightarrow> byte list" where
  "cesu8_of_smp s =
     (let top5 = push_bit 2 (byte_at s 0 AND 0x07) OR drop_bit 4 (byte_at s 1 AND 0x30) in
      [0xed,
       0xa0 OR (top5 - 1),
       0x80 OR push_bit 2 (byte_at s 1 AND 0x0f) OR drop_bit 4 (byte_at s 2 AND 0x30),
       0xed,
       0xb0 OR (byte_at s 2 AND 0x0f),
       byte_at s 3])"

text \<open>
  \<open>u8j_write_cesu8\<close>, first loop: \<open>fin\<close> is \<open>cesu8_len\<close>, the position of \<open>dst\<close> is
  the number of bytes written, and \<open>dst <= fin - 6\<close> is \<open>length dst + 6 \<le> fin\<close>
  (the source requires \<open>cesu8_len\<close> to come from the length functions, which return 0
  or at least 6). The loop hands the source pointer over to the second loop.
\<close>

function u8j_write_cesu8_loop1 :: "cstring \<Rightarrow> byte list \<Rightarrow> nat \<Rightarrow> cstring \<times> byte list" where
  "u8j_write_cesu8_loop1 s dst fin =
     (if length dst + 6 \<le> fin then
        (if u8j__is_utf8_smp s
         then u8j_write_cesu8_loop1 (drop 4 s) (dst @ cesu8_of_smp s) fin
         else u8j_write_cesu8_loop1 (drop 1 s) (dst @ [byte_at s 0]) fin)
      else (s, dst))"
  by pat_completeness auto
termination
  by (relation "measure (\<lambda>(s, dst, fin). fin - length dst)") (auto simp: cesu8_of_smp_def Let_def)

declare u8j_write_cesu8_loop1.simps [simp del]

function u8j_write_cesu8_loop2 :: "cstring \<Rightarrow> byte list \<Rightarrow> nat \<Rightarrow> byte list" where
  "u8j_write_cesu8_loop2 s dst fin =
     (if length dst < fin
      then u8j_write_cesu8_loop2 (drop 1 s) (dst @ [byte_at s 0]) fin
      else dst @ [0])"
  by pat_completeness auto
termination
  by (relation "measure (\<lambda>(s, dst, fin). fin - length dst)") auto

declare u8j_write_cesu8_loop2.simps [simp del]

definition u8j_write_cesu8 :: "cstring \<Rightarrow> nat \<Rightarrow> byte list" where
  "u8j_write_cesu8 utf8_src cesu8_len =
     (case u8j_write_cesu8_loop1 utf8_src [] cesu8_len of
        (s, dst) \<Rightarrow> u8j_write_cesu8_loop2 s dst cesu8_len)"

function u8j_cesu8_len_loop :: "cstring \<Rightarrow> nat \<Rightarrow> nat \<Rightarrow> nat \<times> nat" where
  "u8j_cesu8_len_loop utf8 i smp_count =
     (if byte_at utf8 i \<noteq> 0
      then u8j_cesu8_len_loop utf8 (i + 1)
             (if u8j__is_utf8_smp (drop i utf8) then smp_count + 1 else smp_count)
      else (i, smp_count))"
  by pat_completeness auto
termination
  by (relation "measure (\<lambda>(s, i, c). length s - i)") (auto simp: byte_at_def split: if_splits)

declare u8j_cesu8_len_loop.simps [simp del]

fun u8j_cesu8_len :: "cstring option \<Rightarrow> nat" where
  "u8j_cesu8_len None = 0"
| "u8j_cesu8_len (Some utf8) =
     (case u8j_cesu8_len_loop utf8 0 0 of
        (i, smp_count) \<Rightarrow> if smp_count \<noteq> 0 then size_add i (smp_count * 2) else 0)"


subsection \<open>Special sequences\<close>

text \<open>
  The number of special sequences in a string: the offsets at which the source's own test
  for the supplementary-plane pattern of the encoding succeeds.
\<close>

definition utf8_smp_count :: "cstring \<Rightarrow> nat" where
  "utf8_smp_count s = length (filter (\<lambda>i. u8j__is_utf8_smp (drop i s)) [0..<length s])"

definition cesu8_smp_count :: "cstring \<Rightarrow> nat" where
  "cesu8_smp_count s = length (filter (\<lambda>i. u8j__is_cesu8_smp (drop i s)) [0..<length s])"

subsection \<open>The conversions as functions of the string\<close>

text \<open>
  What the two write loops produce, stated on the string alone: each special sequence is
  replaced by the bytes the source writes for it (\<open>cesu8_of_smp\<close>, \<open>utf8_of_pair\<close>) and
  every other byte is copied. The loops are shown below to compute these functions.
\<close>

function cesu8_of_utf8 :: "cstring \<Rightarrow> cstring" where
  "cesu8_of_utf8 s =
     (if s = [] then []
      else if u8j__is_utf8_smp s then cesu8_of_smp s @ cesu8_of_utf8 (drop 4 s)
      else hd s # cesu8_of_utf8 (tl s))"
  by pat_completeness auto
termination
  by (relation "measure length") auto

declare cesu8_of_utf8.simps [simp del]

function utf8_of_cesu8 :: "cstring \<Rightarrow> cstring" where
  "utf8_of_cesu8 s =
     (if s = [] then []
      else if u8j__is_cesu8_smp s then utf8_of_pair s @ utf8_of_cesu8 (drop 6 s)
      else hd s # utf8_of_cesu8 (tl s))"
  by pat_completeness auto
termination
  by (relation "measure length") auto

declare utf8_of_cesu8.simps [simp del]

subsection \<open>Conversion entry points\<close>

text \<open>
  \<open>u8j__as_utf8\<close> and \<open>u8j__as_cesu8\<close> return a pointer and set \<open>*mem\<close>. The model
  records which block the returned pointer addresses, the value of \<open>*mem\<close> (\<open>None\<close> is
  NULL), the sizes passed to \<open>u8j__malloc\<close> in order, and the string the returned
  pointer denotes (\<open>None\<close> when the input pointer was NULL and is handed back).
  \<open>u8j__malloc\<close> throws when the allocator fails; \<open>oom\<close> says whether it does.
\<close>

datatype ptr = Original | StackBuf | Allocated

datatype js_exn = Throw_U8J_OOM | Throw_Error cstring | Throw_Engine

record u8j_conv =
  ret :: ptr
  mem :: "ptr option"
  mallocs :: "int list"
  text_of :: "cstring option"

fun u8j__as_utf8 :: "bool \<Rightarrow> cstring option \<Rightarrow> nat \<Rightarrow> js_exn + u8j_conv" where
  "u8j__as_utf8 oom cesu8 bufsiz =
     (let n = u8j_utf8_len cesu8 in
      if n = 0 then Inr \<lparr>ret = Original, mem = None, mallocs = [], text_of = cesu8\<rparr>
      else case cesu8 of
        None \<Rightarrow> Inr \<lparr>ret = Original, mem = None, mallocs = [], text_of = cesu8\<rparr>
      | Some s \<Rightarrow>
          if n < bufsiz
          then Inr \<lparr>ret = StackBuf, mem = None, mallocs = [],
                    text_of = Some (c_str (u8j_write_utf8 s))\<rparr>
          else if oom then Inl Throw_U8J_OOM
          else Inr \<lparr>ret = Allocated, mem = Some Allocated,
                    mallocs = [size_to_int (size_add n 1)],
                    text_of = Some (c_str (u8j_write_utf8 s))\<rparr>)"

fun u8j__as_cesu8 :: "bool \<Rightarrow> cstring option \<Rightarrow> nat \<Rightarrow> js_exn + u8j_conv" where
  "u8j__as_cesu8 oom utf8 bufsiz =
     (let n = u8j_cesu8_len utf8 in
      if n = 0 then Inr \<lparr>ret = Original, mem = None, mallocs = [], text_of = utf8\<rparr>
      else case utf8 of
        None \<Rightarrow> Inr \<lparr>ret = Original, mem = None, mallocs = [], text_of = utf8\<rparr>
      | Some s \<Rightarrow>
          if n < bufsiz
          then Inr \<lparr>ret = StackBuf, mem = None, mallocs = [],
                    text_of = Some (c_str (u8j_write_cesu8 s n))\<rparr>
          else if oom then Inl Throw_U8J_OOM
          else Inr \<lparr>ret = Allocated, mem = Some Allocated,
                    mallocs = [size_to_int (size_add n 1)],
                    text_of = Some (c_str (u8j_write_cesu8 s n))\<rparr>)"

subsection \<open>The length-bounded scan\<close>

text \<open>
  \<open>u8j_lcesu8_len\<close> works on a buffer that need not be terminated, so what it reads is
  the point. Memory here is every byte reachable from the pointer, also behind the
  declared length, and each function returns the offsets it read next to its value.
  \<open>u8j__is_utf8_smp\<close> at offset \<open>p\<close> evaluates its conjuncts left to right and stops
  at the first that fails, as \<open>&&\<close> does.
\<close>

type_synonym memory = "nat \<Rightarrow> byte"

definition u8j__is_utf8_smp_at :: "memory \<Rightarrow> nat \<Rightarrow> bool \<times> nat list" where
  "u8j__is_utf8_smp_at m p =
     (if (m p AND 0xf8) \<noteq> 0xf0 then (False, [p])
      else if (m (p + 1) AND 0xc0) \<noteq> 0x80 then (False, [p, p + 1])
      else if (m (p + 2) AND 0xc0) \<noteq> 0x80 then (False, [p, p + 1, p + 2])
      else if (m (p + 3) AND 0xc0) \<noteq> 0x80 then (False, [p, p + 1, p + 2, p + 3])
      else (((m p AND 0x04) = 0) \<noteq> (((m p AND 0x03) OR (m (p + 1) AND 0x30)) = 0),
            [p, p + 1, p + 2, p + 3]))"

record scan =
  smp_count :: nat
  tested :: "nat list"
  reads :: "nat list"

function u8j_lcesu8_len_loop :: "memory \<Rightarrow> nat \<Rightarrow> nat \<Rightarrow> scan \<Rightarrow> scan" where
  "u8j_lcesu8_len_loop utf8 utf8_len i sc =
     (if i \<le> size_sub utf8_len 4 then
        (case u8j__is_utf8_smp_at utf8 i of
           (b, rs) \<Rightarrow>
             u8j_lcesu8_len_loop utf8 utf8_len (i + 1)
               \<lparr>smp_count = (if b then smp_count sc + 1 else smp_count sc),
                tested = tested sc @ [i], reads = reads sc @ rs\<rparr>)
      else sc)"
  by pat_completeness auto
termination
  by (relation "measure (\<lambda>(m, n, i, sc). size_sub n 4 + 1 - i)") auto

declare u8j_lcesu8_len_loop.simps [simp del]

text \<open>The value returned, with the offsets tested and the offsets read.\<close>

definition u8j_lcesu8_len :: "memory \<Rightarrow> nat \<Rightarrow> nat \<times> scan" where
  "u8j_lcesu8_len utf8 utf8_len =
     (if utf8_len < 4 then (0, \<lparr>smp_count = 0, tested = [], reads = []\<rparr>)
      else
        (let sc = u8j_lcesu8_len_loop utf8 utf8_len 0 \<lparr>smp_count = 0, tested = [], reads = []\<rparr>
         in (if smp_count sc \<noteq> 0 then size_add utf8_len (smp_count sc * 2) else 0, sc)))"


subsection \<open>Strings crossing the engine boundary\<close>

text \<open>
  The header redefines \<open>js_pushstring\<close>, \<open>js_tostring\<close>, \<open>js_setproperty\<close> and
  \<open>js_getproperty\<close> as their \<open>u_\<close> variants, so every string javascript.c hands to the
  engine is converted to CESU-8 and every string it takes out is converted to UTF-8.
  \<open>as_cesu8_text\<close> is the string \<open>u8j__as_cesu8\<close> returns for a string that is not
  NULL when the allocation succeeds; the \<open>U8J__IN_NON\<close> wrappers pass it to the engine.
\<close>

definition as_cesu8_text :: "cstring \<Rightarrow> cstring" where
  "as_cesu8_text utf8 =
     (let n = u8j_cesu8_len (Some utf8) in
      if n = 0 then utf8 else c_str (u8j_write_cesu8 utf8 n))"

text \<open>
  \<open>as_utf8_text\<close> is likewise the string \<open>u8j__as_utf8\<close> returns for a string that is
  not NULL when the allocation succeeds.
\<close>

definition as_utf8_text :: "cstring \<Rightarrow> cstring" where
  "as_utf8_text cesu8 =
     (let n = u8j_utf8_len (Some cesu8) in
      if n = 0 then cesu8 else c_str (u8j_write_utf8 cesu8))"

text \<open>
  \<open>u_js_pushstring\<close>: the content of the engine string pushed. The length goes through
  \<open>U8J_SIZ\<close>; \<open>u8j__pushslcesu8string\<close> writes \<open>cesu8_len\<close> bytes and pushes that many
  with \<open>js_pushlstring\<close>.
\<close>

definition u_js_pushstring :: "cstring \<Rightarrow> cstring" where
  "u_js_pushstring v =
     (let cesu8_len = size_to_int (u8j_cesu8_len (Some v)) in
      if cesu8_len = 0 then v
      else take (nat cesu8_len) (u8j_write_cesu8 v (int_to_size cesu8_len)))"

text \<open>
  \<open>u_js_tostring\<close> on an engine string with content \<open>str\<close>: the string itself, or the
  converted copy \<open>u8j__push_utf8ret\<close> allocates.
\<close>

definition u_js_tostring :: "cstring \<Rightarrow> cstring" where
  "u_js_tostring str =
     (let utf8_len = size_to_int (u8j_utf8_len (Some str)) in
      if utf8_len = 0 then str else c_str (u8j_write_utf8 str))"

section \<open>Value Marshaller (javascript.c)\<close>

subsection \<open>Numbers\<close>

text \<open>
  A \<open>double\<close> is a finite value, an infinity or NaN. A finite double is modelled by its
  exact rational value; both zeros are \<open>Finite 0\<close> (they compare equal and convert to the
  same integer, which is all the source does with them). \<open>double_eq\<close> is \<open>==\<close>.
\<close>

datatype double = Finite rat | PosInf | NegInf | NaN

type_synonym int64 = "64 word"

definition double_eq :: "double \<Rightarrow> double \<Rightarrow> bool" where
  "double_eq a b \<longleftrightarrow> a \<noteq> NaN \<and> b \<noteq> NaN \<and> a = b"

fun bitlen :: "nat \<Rightarrow> nat" where
  "bitlen n = (if n = 0 then 0 else Suc (bitlen (n div 2)))"

declare bitlen.simps [simp del]

text \<open>
  The conversion \<open>(double)v\<close> of an integer rounds to 53 significant bits, to nearest
  and to even on a tie.
\<close>

definition round53 :: "int \<Rightarrow> int" where
  "round53 n =
     (let a = nat \<bar>n\<bar>; e = bitlen a - 53 in
      if e = 0 then n
      else
        (let q = a div 2 ^ e; r = a mod 2 ^ e; h = 2 ^ (e - 1);
             q' = (if h < r \<or> (r = h \<and> odd q) then q + 1 else q)
         in sgn n * int (q' * 2 ^ e)))"

definition int64_to_double :: "int64 \<Rightarrow> double" where
  "int64_to_double v = Finite (of_int (round53 (sint v)))"

definition trunc_zero :: "rat \<Rightarrow> int" where
  "trunc_zero q = (if 0 \<le> q then \<lfloor>q\<rfloor> else \<lceil>q\<rceil>)"

text \<open>
  The conversion \<open>(int64_t)d\<close> truncates towards zero. C leaves it undefined when the
  truncated value does not fit, and for infinities and NaN; \<open>oor\<close> is what the
  platform yields there.
\<close>

definition double_to_int64 :: "(double \<Rightarrow> int64) \<Rightarrow> double \<Rightarrow> int64" where
  "double_to_int64 oor d =
     (case d of
        Finite q \<Rightarrow>
          if - (2 ^ 63) \<le> trunc_zero q \<and> trunc_zero q < 2 ^ 63 then word_of_int (trunc_zero q)
          else oor d
      | _ \<Rightarrow> oor d)"

text \<open>On x86-64 the conversion instruction yields the most negative integer in those cases.\<close>

definition x86_cast :: "double \<Rightarrow> int64" where
  "x86_cast d = 0x8000000000000000"

definition is_int :: "(double \<Rightarrow> int64) \<Rightarrow> double \<Rightarrow> bool" where
  "is_int oor d = (let v = double_to_int64 oor d in double_eq d (int64_to_double v))"


subsection \<open>Nodes and engine values\<close>

text \<open>
  \<open>mpv_node\<close>: the format tag with the member of the union it selects. A list node
  carries its values, a map node its keys and values in order. \<open>MPV_FORMAT_OTHER\<close>
  stands for the format tags \<open>pushnode\<close> has no case for.
\<close>

datatype mpv_node =
    MPV_FORMAT_NONE
  | MPV_FORMAT_STRING cstring
  | MPV_FORMAT_FLAG bool
  | MPV_FORMAT_INT64 int64
  | MPV_FORMAT_DOUBLE double
  | MPV_FORMAT_NODE_ARRAY "mpv_node list"
  | MPV_FORMAT_NODE_MAP "(cstring \<times> mpv_node) list"
  | MPV_FORMAT_OTHER

text \<open>
  Engine values. Strings hold the engine's CESU-8 bytes. An object is its own enumerable
  properties in the order the engine enumerates them, names unique. For the engine every
  value that is not a primitive is an object: \<open>js_isobject\<close> holds of arrays and of
  functions as well, which is why \<open>makenode\<close> asks \<open>js_isarray\<close> first. \<open>JForeign\<close> is
  a value of a kind that fails every type test \<open>makenode\<close> makes (a buffer or a pointer
  value of the Duktape engine).
\<close>

datatype jsval =
    JUndefined
  | JNull
  | JBoolean bool
  | JNumber double
  | JString cstring
  | JArray "jsval list"
  | JObject "(cstring \<times> jsval) list"
  | JCallable "(cstring \<times> jsval) list"
  | JForeign

fun js_isobject :: "jsval \<Rightarrow> bool" where
  "js_isobject (JArray xs) = True"
| "js_isobject (JObject ps) = True"
| "js_isobject (JCallable ps) = True"
| "js_isobject v = False"

fun properties :: "jsval \<Rightarrow> (cstring \<times> jsval) list" where
  "properties (JObject ps) = ps"
| "properties (JCallable ps) = ps"
| "properties v = []"

fun with_properties :: "jsval \<Rightarrow> (cstring \<times> jsval) list \<Rightarrow> jsval" where
  "with_properties (JObject ps) qs = JObject qs"
| "with_properties (JCallable ps) qs = JCallable qs"
| "with_properties v qs = v"

text \<open>Storing a property: an existing name keeps its place, a new name goes last.\<close>

fun put :: "cstring \<Rightarrow> jsval \<Rightarrow> (cstring \<times> jsval) list \<Rightarrow> (cstring \<times> jsval) list" where
  "put k v [] = [(k, v)]"
| "put k v ((k', v') # ps) = (if k = k' then (k, v) # ps else (k', v') # put k v ps)"

text \<open>\<open>js_setproperty(J, idx, name)\<close> on the object \<open>obj\<close> with the popped value \<open>v\<close>.\<close>

definition js_setproperty :: "jsval \<Rightarrow> cstring \<Rightarrow> jsval \<Rightarrow> jsval" where
  "js_setproperty obj name v = with_properties obj (put (as_cesu8_text name) v (properties obj))"

text \<open>\<open>js_getproperty(J, idx, name)\<close>: the value pushed, undefined for a name not there.\<close>

definition js_getproperty :: "jsval \<Rightarrow> cstring \<Rightarrow> jsval" where
  "js_getproperty obj name =
     (case map_of (properties obj) (as_cesu8_text name) of None \<Rightarrow> JUndefined | Some v \<Rightarrow> v)"

text \<open>\<open>js_setindex\<close> on an array: a write behind the end leaves undefined elements between.\<close>

fun js_setindex :: "jsval \<Rightarrow> nat \<Rightarrow> jsval \<Rightarrow> jsval" where
  "js_setindex (JArray xs) n v =
     JArray (if n < length xs then xs[n := v]
             else xs @ replicate (n - length xs) JUndefined @ [v])"
| "js_setindex a n v = a"

fun js_getlength :: "jsval \<Rightarrow> nat" where
  "js_getlength (JArray xs) = length xs"
| "js_getlength v = 0"

fun js_getindex :: "jsval \<Rightarrow> nat \<Rightarrow> jsval" where
  "js_getindex (JArray xs) n = (if n < length xs then xs ! n else JUndefined)"
| "js_getindex v n = JUndefined"

text \<open>
  \<open>get_object_properties\<close>: the names the iterator yields, each taken out with
  \<open>js_tostring\<close>.
\<close>

definition get_object_properties :: "jsval \<Rightarrow> cstring list" where
  "get_object_properties obj = map (\<lambda>(k, v). u_js_tostring k) (properties obj)"


text \<open>The type tests \<open>makenode\<close> makes, on the value at the index.\<close>

fun js_isundefined_value :: "jsval \<Rightarrow> bool" where
  "js_isundefined_value JUndefined = True"
| "js_isundefined_value v = False"

fun js_isnull :: "jsval \<Rightarrow> bool" where
  "js_isnull JNull = True"
| "js_isnull v = False"

fun js_isboolean :: "jsval \<Rightarrow> bool" where
  "js_isboolean (JBoolean b) = True"
| "js_isboolean v = False"

fun js_isnumber :: "jsval \<Rightarrow> bool" where
  "js_isnumber (JNumber d) = True"
| "js_isnumber v = False"

fun js_isstring :: "jsval \<Rightarrow> bool" where
  "js_isstring (JString str) = True"
| "js_isstring v = False"

fun js_isarray :: "jsval \<Rightarrow> bool" where
  "js_isarray (JArray xs) = True"
| "js_isarray v = False"

fun js_iscallable :: "jsval \<Rightarrow> bool" where
  "js_iscallable (JCallable ps) = True"
| "js_iscallable v = False"

subsection \<open>pushnode and makenode\<close>

text \<open>
  \<open>pushnode\<close> leaves one new value on the engine stack; the model returns that value.
  The two loops build the array and the object the way the source does, one
  \<open>js_setindex\<close> or \<open>js_setproperty\<close> per element.
\<close>

fun pushnode :: "mpv_node \<Rightarrow> jsval"
  and pushnode_array :: "mpv_node list \<Rightarrow> nat \<Rightarrow> jsval \<Rightarrow> jsval"
  and pushnode_map :: "(cstring \<times> mpv_node) list \<Rightarrow> jsval \<Rightarrow> jsval" where
  "pushnode MPV_FORMAT_NONE = JNull"
| "pushnode (MPV_FORMAT_STRING s) = JString (u_js_pushstring s)"
| "pushnode (MPV_FORMAT_INT64 i) = JNumber (int64_to_double i)"
| "pushnode (MPV_FORMAT_DOUBLE d) = JNumber d"
| "pushnode (MPV_FORMAT_FLAG b) = JBoolean b"
| "pushnode (MPV_FORMAT_NODE_ARRAY vs) = pushnode_array vs 0 (JArray [])"
| "pushnode (MPV_FORMAT_NODE_MAP kvs) = pushnode_map kvs (JObject [])"
| "pushnode MPV_FORMAT_OTHER = JString (u_js_pushstring (lit ''[UNKNOWN_VALUE_FORMAT]''))"
| "pushnode_array [] n a = a"
| "pushnode_array (v # vs) n a = pushnode_array vs (n + 1) (js_setindex a n (pushnode v))"
| "pushnode_map [] obj = obj"
| "pushnode_map ((k, v) # kvs) obj = pushnode_map kvs (js_setproperty obj k (pushnode v))"

text \<open>
  \<open>makenode\<close> reads the value at a stack index; the model takes that value. The
  equations follow the order of the tests in the source: undefined or null, boolean,
  number, string, array, object, and the final \<open>else\<close>. A function passes \<open>js_isobject\<close>
  and takes the object branch.
\<close>

function makenode :: "(double \<Rightarrow> int64) \<Rightarrow> jsval \<Rightarrow> mpv_node" where
  "makenode oor JUndefined = MPV_FORMAT_NONE"
| "makenode oor JNull = MPV_FORMAT_NONE"
| "makenode oor (JBoolean b) = MPV_FORMAT_FLAG b"
| "makenode oor (JNumber val) =
     (if is_int oor val then MPV_FORMAT_INT64 (double_to_int64 oor val)
      else MPV_FORMAT_DOUBLE val)"
| "makenode oor (JString str) = MPV_FORMAT_STRING (u_js_tostring str)"
| "makenode oor (JArray xs) =
     MPV_FORMAT_NODE_ARRAY
       (map (\<lambda>n. makenode oor (js_getindex (JArray xs) n)) [0..<js_getlength (JArray xs)])"
| "makenode oor (JObject ps) =
     MPV_FORMAT_NODE_MAP
       (map (\<lambda>key. (key, makenode oor (js_getproperty (JObject ps) key)))
            (get_object_properties (JObject ps)))"
| "makenode oor (JCallable ps) =
     MPV_FORMAT_NODE_MAP
       (map (\<lambda>key. (key, makenode oor (js_getproperty (JCallable ps) key)))
            (get_object_properties (JCallable ps)))"
| "makenode oor JForeign = MPV_FORMAT_NONE"
  by pat_completeness auto

lemma size_map_of_less:
  "map_of ps k = Some v \<Longrightarrow> size v < Suc (size_list (size_prod (\<lambda>_. 0) size) ps)"
  by (induction ps) (auto split: if_splits)

lemma size_nth_less:
  "n < length xs \<Longrightarrow> size (xs ! n) < Suc (size_list size xs)"
proof (induction xs arbitrary: n)
  case Nil
  then show ?case by simp
next
  case (Cons a xs)
  show ?case
  proof (cases n)
    case 0
    then show ?thesis by simp
  next
    case (Suc m)
    with Cons.prems have "m < length xs" by simp
    from Cons.IH [OF this] Suc show ?thesis by simp
  qed
qed

termination makenode
proof (relation "measure (\<lambda>(oor, v). size v)", goal_cases)
  case 1
  show ?case by simp
next
  case (2 oor xs n)
  then show ?case by (auto dest: size_nth_less [of _ xs])
next
  case (3 oor ps key)
  show ?case
    by (cases "map_of ps (as_cesu8_text key)")
       (auto simp: js_getproperty_def dest: size_map_of_less)
next
  case (4 oor ps key)
  show ?case
    by (cases "map_of ps (as_cesu8_text key)")
       (auto simp: js_getproperty_def dest: size_map_of_less)
qed

subsection \<open>Nodes with an exact engine value\<close>




section \<open>Call Bridge (javascript.c)\<close>

subsection \<open>Engine state, host and failures\<close>

text \<open>
  The engine state as a bridge function sees it: the stack of the running call (index 0
  is \<open>this\<close>, the arguments follow, the top is last) and the property
  \<open>last_error_string\<close> of the global object \<open>mp\<close>. The value a bridge function returns
  to the script is the top of the stack when it returns. Where \<open>u_js_tostring\<close> converts
  a string it replaces the stack slot by an object that owns the copy; no bridge function
  reads such a slot again, and the model leaves the slot as it is.
\<close>

record js_State =
  stack :: "jsval list"
  last_error_string :: jsval

definition js_gettop :: "js_State \<Rightarrow> nat" where
  "js_gettop J = length (stack J)"

text \<open>The value at a stack index counted from the bottom; the engine answers undefined behind the top.\<close>

definition js_index :: "js_State \<Rightarrow> nat \<Rightarrow> jsval" where
  "js_index J idx = (if idx < length (stack J) then stack J ! idx else JUndefined)"

definition js_push :: "js_State \<Rightarrow> jsval \<Rightarrow> js_State" where
  "js_push J v = J\<lparr>stack := stack J @ [v]\<rparr>"

definition js_top :: "js_State \<Rightarrow> jsval" where
  "js_top J = (if stack J = [] then JUndefined else last (stack J))"

definition js_isundefined :: "js_State \<Rightarrow> nat \<Rightarrow> bool" where
  "js_isundefined J idx \<longleftrightarrow> js_index J idx = JUndefined"

definition js_copy :: "js_State \<Rightarrow> nat \<Rightarrow> js_State" where
  "js_copy J idx = js_push J (js_index J idx)"

text \<open>
  How a bridge function can fail: it raises a script exception, it calls the engine on
  memory that is no engine state, or it writes outside an array.
\<close>

datatype failure = Raised js_exn | Not_a_js_State | Out_of_bounds

definition and_then :: "failure + 'a \<Rightarrow> ('a \<Rightarrow> failure + 'b) \<Rightarrow> failure + 'b" where
  "and_then x f = (case x of Inl e \<Rightarrow> Inl e | Inr v \<Rightarrow> f v)"

text \<open>
  The engine's conversions of values that are not already of the wanted type run script
  code and may throw (\<open>None\<close>); they are parameters, as is the platform's result for a
  conversion of a double that C leaves undefined.
\<close>

record engine =
  tostring :: "jsval \<Rightarrow> cstring option"
  tonumber :: "jsval \<Rightarrow> double option"
  cast_out_of_range :: "double \<Rightarrow> int64"

definition js_tostring :: "engine \<Rightarrow> jsval \<Rightarrow> failure + cstring" where
  "js_tostring E v =
     (case v of
        JString str \<Rightarrow> Inr (u_js_tostring str)
      | _ \<Rightarrow>
          (case tostring E v of
             None \<Rightarrow> Inl (Raised Throw_Engine)
           | Some str \<Rightarrow> Inr (u_js_tostring str)))"

definition js_tonumber :: "engine \<Rightarrow> jsval \<Rightarrow> failure + double" where
  "js_tonumber E v =
     (case v of
        JNumber d \<Rightarrow> Inr d
      | _ \<Rightarrow> (case tonumber E v of None \<Rightarrow> Inl (Raised Throw_Engine) | Some d \<Rightarrow> Inr d))"

fun js_toboolean :: "jsval \<Rightarrow> bool" where
  "js_toboolean JUndefined = False"
| "js_toboolean JNull = False"
| "js_toboolean (JBoolean b) = b"
| "js_toboolean (JNumber d) = (d \<noteq> NaN \<and> d \<noteq> Finite 0)"
| "js_toboolean (JString str) = (str \<noteq> [])"
| "js_toboolean v = True"

text \<open>
  The host's control calls, each returning its status and, for the getters and the node
  command, the result it stores. \<open>error_text\<close> is the host's table of error texts.
\<close>

record host =
  error_text :: "int \<Rightarrow> cstring"
  mpv_command_string :: "cstring \<Rightarrow> int"
  mpv_command :: "cstring list \<Rightarrow> int"
  mpv_command_node :: "mpv_node \<Rightarrow> int \<times> mpv_node"
  mpv_set_property_string :: "cstring \<Rightarrow> cstring \<Rightarrow> int"
  mpv_set_property_flag :: "cstring \<Rightarrow> bool \<Rightarrow> int"
  mpv_set_property_double :: "cstring \<Rightarrow> double \<Rightarrow> int"
  mpv_set_property_node :: "cstring \<Rightarrow> mpv_node \<Rightarrow> int"
  mpv_get_property_string :: "cstring \<Rightarrow> int \<times> cstring"
  mpv_get_property_osd_string :: "cstring \<Rightarrow> int \<times> cstring"
  mpv_get_property_flag :: "cstring \<Rightarrow> int \<times> int"
  mpv_get_property_double :: "cstring \<Rightarrow> int \<times> double"
  mpv_get_property_node :: "cstring \<Rightarrow> int \<times> mpv_node"
  mpv_observe_property :: "double \<Rightarrow> cstring \<Rightarrow> double \<Rightarrow> int"
  mpv_unobserve_property :: "double \<Rightarrow> int"
  mpv_event_name :: "nat \<Rightarrow> cstring option"
  mpv_request_event :: "int \<Rightarrow> bool \<Rightarrow> int"
  log_level :: "cstring \<Rightarrow> nat option"
  mpv_request_log_messages :: "cstring \<Rightarrow> int"

text \<open>
  Modelled from the spec: \<open>mpv_error_string\<close>, the host function that turns a status
  into its text, is not among the sources. The spec has the last-error field hold the
  host's human-readable error text on failure and the literal "success" on success; the
  text of a negative status is taken from the host's table.
\<close>

definition mpv_error_string :: "host \<Rightarrow> int \<Rightarrow> cstring" where
  "mpv_error_string H err = (if 0 \<le> err then lit ''success'' else error_text H err)"

subsection \<open>Error handling\<close>

text \<open>
  \<open>set_last_error\<close> pushes \<open>mp\<close> and the string, stores the string as
  \<open>mp.last_error_string\<close> and pops \<open>mp\<close>: the stack is as before and the field holds
  the engine string.
\<close>

definition set_last_error :: "host \<Rightarrow> js_State \<Rightarrow> int \<Rightarrow> cstring option \<Rightarrow> js_State" where
  "set_last_error H J err str =
     J\<lparr>last_error_string :=
         JString (u_js_pushstring (case str of Some s \<Rightarrow> s | None \<Rightarrow> mpv_error_string H err))\<rparr>"

definition handledAsError :: "host \<Rightarrow> js_State \<Rightarrow> int \<Rightarrow> js_State \<times> int" where
  "handledAsError H J err =
     (if 0 \<le> err then (J, 0)
      else (js_push (set_last_error H J err None) JUndefined, 1))"

definition handledAsErrDef :: "host \<Rightarrow> js_State \<Rightarrow> int \<Rightarrow> js_State \<times> int" where
  "handledAsErrDef H J err =
     (if js_isundefined J 2 then handledAsError H J err
      else
        (let J1 = set_last_error H J err None in
         if 0 \<le> err then (J1, 0) else (js_copy J1 2, 1)))"

definition pushStatus :: "host \<Rightarrow> js_State \<Rightarrow> int \<Rightarrow> js_State" where
  "pushStatus H J err =
     (case handledAsError H J err of
        (J', handled) \<Rightarrow> if handled = 0 then js_push J' (JBoolean True) else J')"


subsection \<open>Boolean-status calls\<close>

text \<open>
  Every function below ends in \<open>pushStatus\<close> on the status of one host call. Where the
  source converts several arguments inside one call expression C fixes no order among
  the conversions; the model takes them left to right.
\<close>

definition script_command :: "host \<Rightarrow> engine \<Rightarrow> js_State \<Rightarrow> failure + js_State" where
  "script_command H E J =
     and_then (js_tostring E (js_index J 1)) (\<lambda>cmd.
       Inr (pushStatus H J (mpv_command_string H cmd)))"

definition script_set_property :: "host \<Rightarrow> engine \<Rightarrow> js_State \<Rightarrow> failure + js_State" where
  "script_set_property H E J =
     and_then (js_tostring E (js_index J 1)) (\<lambda>name.
     and_then (js_tostring E (js_index J 2)) (\<lambda>val.
       Inr (pushStatus H J (mpv_set_property_string H name val))))"

definition script_set_property_bool :: "host \<Rightarrow> engine \<Rightarrow> js_State \<Rightarrow> failure + js_State" where
  "script_set_property_bool H E J =
     (let v = js_toboolean (js_index J 2) in
      and_then (js_tostring E (js_index J 1)) (\<lambda>name.
        Inr (pushStatus H J (mpv_set_property_flag H name v))))"

definition script_set_property_number :: "host \<Rightarrow> engine \<Rightarrow> js_State \<Rightarrow> failure + js_State" where
  "script_set_property_number H E J =
     and_then (js_tonumber E (js_index J 2)) (\<lambda>v.
     and_then (js_tostring E (js_index J 1)) (\<lambda>name.
       Inr (pushStatus H J (mpv_set_property_double H name v))))"

definition script_set_property_native :: "host \<Rightarrow> engine \<Rightarrow> js_State \<Rightarrow> failure + js_State" where
  "script_set_property_native H E J =
     (let node = makenode (cast_out_of_range E) (js_index J 2) in
      and_then (js_tostring E (js_index J 1)) (\<lambda>name.
        (let err = mpv_set_property_node H name node in Inr (pushStatus H J err))))"

definition script__observe_property :: "host \<Rightarrow> engine \<Rightarrow> js_State \<Rightarrow> failure + js_State" where
  "script__observe_property H E J =
     and_then (js_tonumber E (js_index J 1)) (\<lambda>id.
     and_then (js_tostring E (js_index J 2)) (\<lambda>name.
     and_then (js_tonumber E (js_index J 3)) (\<lambda>format.
       Inr (pushStatus H J (mpv_observe_property H id name format)))))"

definition script__unobserve_property :: "host \<Rightarrow> engine \<Rightarrow> js_State \<Rightarrow> failure + js_State" where
  "script__unobserve_property H E J =
     and_then (js_tonumber E (js_index J 1)) (\<lambda>id.
       Inr (pushStatus H J (mpv_unobserve_property H id)))"

text \<open>The search of \<open>script__request_event\<close> for the event id: the first \<open>n\<close> below 256 with that name, else -1.\<close>

fun find_event_id :: "host \<Rightarrow> cstring \<Rightarrow> nat \<Rightarrow> nat \<Rightarrow> int" where
  "find_event_id H event n 0 = -1"
| "find_event_id H event n (Suc left) =
     (if mpv_event_name H n = Some event then int n else find_event_id H event (n + 1) left)"

definition script__request_event :: "host \<Rightarrow> engine \<Rightarrow> js_State \<Rightarrow> failure + js_State" where
  "script__request_event H E J =
     and_then (js_tostring E (js_index J 1)) (\<lambda>event.
       (let enable = js_toboolean (js_index J 2);
            event_id = find_event_id H event 0 256
        in Inr (pushStatus H J (mpv_request_event H event_id enable))))"

text \<open>\<open>js_error\<close> formats its message into a buffer of 256 bytes.\<close>

definition js_error :: "cstring \<Rightarrow> failure + 'a" where
  "js_error msg = Inl (Raised (Throw_Error (take 255 msg)))"

definition check_loglevel :: "host \<Rightarrow> engine \<Rightarrow> js_State \<Rightarrow> nat \<Rightarrow> failure + nat" where
  "check_loglevel H E J idx =
     and_then (js_tostring E (js_index J idx)) (\<lambda>level.
       (case log_level H level of
          Some n \<Rightarrow> Inr n
        | None \<Rightarrow> js_error (lit ''Invalid log level '' @ [0x27] @ level @ [0x27])))"

definition script_enable_messages :: "host \<Rightarrow> engine \<Rightarrow> js_State \<Rightarrow> failure + js_State" where
  "script_enable_messages H E J =
     and_then (check_loglevel H E J 1) (\<lambda>n.
     and_then (js_tostring E (js_index J 1)) (\<lambda>level.
       Inr (pushStatus H J (mpv_request_log_messages H level))))"

subsection \<open>script_commandv\<close>

definition MAX_LENGTH_COMMANDV :: nat where
  "MAX_LENGTH_COMMANDV = 50"

text \<open>
  The local array \<open>args\<close> has \<open>MAX_LENGTH_COMMANDV + 1\<close> slots and starts uninitialised.
  A write outside it is a failure of the model. The host reads the vector up to the first
  NULL; it must not meet an uninitialised slot nor run off the array.
\<close>

datatype slot = Uninitialised | Null_pointer | Str cstring

definition store :: "slot list \<Rightarrow> nat \<Rightarrow> slot \<Rightarrow> failure + slot list" where
  "store args i v = (if i < length args then Inr (args[i := v]) else Inl Out_of_bounds)"

fun vector_of :: "slot list \<Rightarrow> cstring list option" where
  "vector_of [] = None"
| "vector_of (Uninitialised # rest) = None"
| "vector_of (Null_pointer # rest) = Some []"
| "vector_of (Str s # rest) = (case vector_of rest of None \<Rightarrow> None | Some v \<Rightarrow> Some (s # v))"

function commandv_loop ::
  "engine \<Rightarrow> js_State \<Rightarrow> nat \<Rightarrow> nat \<Rightarrow> slot list \<Rightarrow> failure + nat \<times> slot list" where
  "commandv_loop E J len i args =
     (if i < len - 1 then
        and_then (js_tostring E (js_index J (i + 1))) (\<lambda>s.
        and_then (store args i (Str s)) (\<lambda>args'.
          commandv_loop E J len (i + 1) args'))
      else Inr (i, args))"
  by pat_completeness auto
termination
  by (relation "measure (\<lambda>(E, J, len, i, args). len - i)") auto

declare commandv_loop.simps [simp del]

definition script_commandv :: "host \<Rightarrow> engine \<Rightarrow> js_State \<Rightarrow> failure + js_State" where
  "script_commandv H E J =
     (let args = replicate (MAX_LENGTH_COMMANDV + 1) Uninitialised;
          len = js_gettop J
      in if len = 0 \<or> MAX_LENGTH_COMMANDV < len
         then js_error (lit ''Invalid number of arguments. Allowed: 1 - 50'')
         else
           and_then (commandv_loop E J len 0 args) (\<lambda>(i, args1).
           and_then (store args1 i Null_pointer) (\<lambda>args2.
             (case vector_of args2 of
                None \<Rightarrow> Inl Out_of_bounds
              | Some v \<Rightarrow> Inr (pushStatus H J (mpv_command H v))))))"

subsection \<open>Calls that accept a default\<close>

text \<open>
  \<open>pushnode\<close> is handed a pointer to an engine state. \<open>The_state\<close> is the \<open>J\<close> of the
  running call; \<open>Talloc_context\<close> is the pointer \<open>talloc_new\<close> returned, which is no
  engine state, so that the engine calls of \<open>pushnode\<close> on it are undefined.
\<close>

datatype state_pointer = The_state | Talloc_context

fun pushnode_at :: "state_pointer \<Rightarrow> js_State \<Rightarrow> mpv_node \<Rightarrow> failure + js_State" where
  "pushnode_at The_state J node = Inr (js_push J (pushnode node))"
| "pushnode_at Talloc_context J node = Inl Not_a_js_State"

definition script_get_property_number :: "host \<Rightarrow> engine \<Rightarrow> js_State \<Rightarrow> failure + js_State" where
  "script_get_property_number H E J =
     and_then (js_tostring E (js_index J 1)) (\<lambda>name.
       (case mpv_get_property_double H name of
          (err, result) \<Rightarrow>
            (case handledAsErrDef H J err of
               (J', handled) \<Rightarrow>
                 if handled = 0 then Inr (js_push J' (JNumber result)) else Inr J')))"

definition script_get_property :: "host \<Rightarrow> engine \<Rightarrow> js_State \<Rightarrow> failure + js_State" where
  "script_get_property H E J =
     and_then (js_tostring E (js_index J 1)) (\<lambda>name.
       (case mpv_get_property_string H name of
          (err, result) \<Rightarrow>
            (case handledAsErrDef H J err of
               (J', handled) \<Rightarrow>
                 if handled = 0 then Inr (js_push J' (JString (u_js_pushstring result)))
                 else Inr J')))"

definition script_get_property_bool :: "host \<Rightarrow> engine \<Rightarrow> js_State \<Rightarrow> failure + js_State" where
  "script_get_property_bool H E J =
     and_then (js_tostring E (js_index J 1)) (\<lambda>name.
       (case mpv_get_property_flag H name of
          (err, result) \<Rightarrow>
            (case handledAsErrDef H J err of
               (J', handled) \<Rightarrow>
                 if handled = 0 then Inr (js_push J' (JBoolean (result \<noteq> 0))) else Inr J')))"

definition script_get_property_native :: "host \<Rightarrow> engine \<Rightarrow> js_State \<Rightarrow> failure + js_State" where
  "script_get_property_native H E J =
     and_then (js_tostring E (js_index J 1)) (\<lambda>name.
       (case mpv_get_property_node H name of
          (err, result) \<Rightarrow>
            (case handledAsErrDef H J err of
               (J', handled) \<Rightarrow>
                 if handled = 0 then pushnode_at The_state J' result else Inr J')))"

definition script_get_property_osd :: "host \<Rightarrow> engine \<Rightarrow> js_State \<Rightarrow> failure + js_State" where
  "script_get_property_osd H E J =
     and_then (js_tostring E (js_index J 1)) (\<lambda>name.
       (case mpv_get_property_osd_string H name of
          (err, result) \<Rightarrow>
            (case handledAsErrDef H J err of
               (J', handled) \<Rightarrow>
                 if handled = 0 then Inr (js_push J' (JString (u_js_pushstring result)))
                 else Inr J')))"

text \<open>
  \<open>script_command_native\<close> passes \<open>tmp\<close>, its talloc context, to \<open>pushnode\<close> where
  \<open>script_get_property_native\<close> passes \<open>J\<close>.
\<close>

definition script_command_native :: "host \<Rightarrow> engine \<Rightarrow> js_State \<Rightarrow> failure + js_State" where
  "script_command_native H E J =
     (let cmd = makenode (cast_out_of_range E) (js_index J 1) in
      case mpv_command_node H cmd of
        (err, result) \<Rightarrow>
          (case handledAsErrDef H J err of
             (J', handled) \<Rightarrow>
               if handled = 0 then pushnode_at Talloc_context J' result else Inr J'))"


section \<open>Example inputs\<close>

text \<open>
  A host whose every call answers with the status \<open>st\<close> and whose results are fixed,
  an engine whose conversions never throw, and the stack of a call with two string
  arguments.
\<close>

definition host_answering :: "int \<Rightarrow> host" where
  "host_answering st =
     \<lparr>error_text = (\<lambda>e. lit ''property not found''),
      mpv_command_string = (\<lambda>cmd. st),
      mpv_command = (\<lambda>args. st),
      mpv_command_node = (\<lambda>cmd. (st, MPV_FORMAT_FLAG True)),
      mpv_set_property_string = (\<lambda>name val. st),
      mpv_set_property_flag = (\<lambda>name v. st),
      mpv_set_property_double = (\<lambda>name v. st),
      mpv_set_property_node = (\<lambda>name v. st),
      mpv_get_property_string = (\<lambda>name. (st, lit ''yes'')),
      mpv_get_property_osd_string = (\<lambda>name. (st, lit ''yes'')),
      mpv_get_property_flag = (\<lambda>name. (st, 1)),
      mpv_get_property_double = (\<lambda>name. (st, Finite 7)),
      mpv_get_property_node = (\<lambda>name. (st, MPV_FORMAT_FLAG True)),
      mpv_observe_property = (\<lambda>id name format. st),
      mpv_unobserve_property = (\<lambda>id. st),
      mpv_event_name = (\<lambda>n. None),
      mpv_request_event = (\<lambda>id enable. st),
      log_level = (\<lambda>level. Some 0),
      mpv_request_log_messages = (\<lambda>level. st)\<rparr>"

definition quiet_engine :: engine where
  "quiet_engine =
     \<lparr>tostring = (\<lambda>v. Some []), tonumber = (\<lambda>v. Some (Finite 0)),
      cast_out_of_range = x86_cast\<rparr>"

definition call_state :: js_State where
  "call_state =
     \<lparr>stack = [JUndefined, JString (lit ''pause''), JNumber (Finite 42)],
      last_error_string = JUndefined\<rparr>"


text \<open>
  A buffer of five declared bytes that ends in the first three bytes of a special
  sequence; the byte behind the declared length would complete it.
\<close>

definition truncated_sequence :: memory where
  "truncated_sequence i = byte_at [0x61, 0x62, 0xf0, 0x9f, 0x98, 0x80] i"



section \<open>Properties of the String Transcoder\<close>

subsection \<open>Reading strings and counting\<close>

lemma byte_at_Nil [simp]: "byte_at [] i = 0"
  by (simp add: byte_at_def)

lemma byte_at_Cons_0 [simp]: "byte_at (x # xs) 0 = x"
  by (simp add: byte_at_def)

lemma byte_at_Cons_Suc [simp]: "byte_at (x # xs) (Suc i) = byte_at xs i"
  by (simp add: byte_at_def)

lemma byte_at_drop: "byte_at (drop i s) k = byte_at s (i + k)"
  by (cases "i + k < length s") (auto simp: byte_at_def)

lemma byte_at_nonzero: "byte_at s i \<noteq> 0 \<Longrightarrow> i < length s"
  by (simp add: byte_at_def split: if_splits)

lemma byte_at_in_string: "0 \<notin> set s \<Longrightarrow> i < length s \<Longrightarrow> byte_at s i \<noteq> 0"
  by (metis byte_at_def nth_mem)

lemma byte_at_end: "length s \<le> i \<Longrightarrow> byte_at s i = 0"
  by (simp add: byte_at_def)

lemma u8j_cesu8_len_loop_eq:
  assumes "0 \<notin> set s" and "i \<le> length s"
  shows "u8j_cesu8_len_loop s i c =
           (length s, c + length (filter (\<lambda>k. u8j__is_utf8_smp (drop k s)) [i..<length s]))"
  using assms
proof (induction "length s - i" arbitrary: i c)
  case 0
  then have "i = length s" by simp
  then show ?case by (subst u8j_cesu8_len_loop.simps) (simp add: byte_at_end)
next
  case (Suc d)
  then have lt: "i < length s" by simp
  with Suc.prems have nz: "byte_at s i \<noteq> 0" by (simp add: byte_at_in_string)
  have u: "[i..<length s] = i # [i + 1..<length s]" using lt by (simp add: upt_conv_Cons)
  have "u8j_cesu8_len_loop s (i + 1)
           (if u8j__is_utf8_smp (drop i s) then c + 1 else c) =
        (length s, (if u8j__is_utf8_smp (drop i s) then c + 1 else c) +
           length (filter (\<lambda>k. u8j__is_utf8_smp (drop k s)) [i + 1..<length s]))"
    using Suc lt by (intro Suc.hyps(1)) auto
  with nz u show ?case by (subst u8j_cesu8_len_loop.simps) simp
qed

lemma u8j_utf8_len_loop_eq:
  assumes "0 \<notin> set s" and "i \<le> length s"
  shows "u8j_utf8_len_loop s i c =
           (length s, c + length (filter (\<lambda>k. u8j__is_cesu8_smp (drop k s)) [i..<length s]))"
  using assms
proof (induction "length s - i" arbitrary: i c)
  case 0
  then have "i = length s" by simp
  then show ?case by (subst u8j_utf8_len_loop.simps) (simp add: byte_at_end)
next
  case (Suc d)
  then have lt: "i < length s" by simp
  with Suc.prems have nz: "byte_at s i \<noteq> 0" by (simp add: byte_at_in_string)
  have u: "[i..<length s] = i # [i + 1..<length s]" using lt by (simp add: upt_conv_Cons)
  have "u8j_utf8_len_loop s (i + 1)
           (if u8j__is_cesu8_smp (drop i s) then c + 1 else c) =
        (length s, (if u8j__is_cesu8_smp (drop i s) then c + 1 else c) +
           length (filter (\<lambda>k. u8j__is_cesu8_smp (drop k s)) [i + 1..<length s]))"
    using Suc lt by (intro Suc.hyps(1)) auto
  with nz u show ?case by (subst u8j_utf8_len_loop.simps) simp
qed

lemma u8j_cesu8_len_count:
  "0 \<notin> set s \<Longrightarrow>
   u8j_cesu8_len (Some s) =
     (if utf8_smp_count s \<noteq> 0 then size_add (length s) (utf8_smp_count s * 2) else 0)"
  by (simp add: u8j_cesu8_len_loop_eq utf8_smp_count_def)

lemma u8j_utf8_len_count:
  "0 \<notin> set s \<Longrightarrow>
   u8j_utf8_len (Some s) =
     (if cesu8_smp_count s \<noteq> 0 then size_sub (length s) (cesu8_smp_count s * 2) else 0)"
  by (simp add: u8j_utf8_len_loop_eq cesu8_smp_count_def)

lemma byte_at_Cons_numeral [simp]:
  "byte_at (x # xs) (numeral n) = byte_at xs (pred_numeral n)"
  by (simp add: byte_at_def numeral_eq_Suc)

lemma count_offsets_Cons:
  "length (filter (\<lambda>k. P (drop k (x # xs))) [0..<length (x # xs)]) =
     (if P (x # xs) then 1 else 0) + length (filter (\<lambda>k. P (drop k xs)) [0..<length xs])"
proof -
  have "[0..<Suc (length xs)] = 0 # [Suc 0..<Suc (length xs)]"
    by (rule upt_conv_Cons) simp
  then have "[0..<length (x # xs)] = 0 # map Suc [0..<length xs]"
    by (simp only: length_Cons map_Suc_upt)
  then show ?thesis by (simp add: filter_map o_def)
qed

lemma cesu8_smp_count_Nil [simp]: "cesu8_smp_count [] = 0"
  by (simp add: cesu8_smp_count_def)

lemma utf8_smp_count_Nil [simp]: "utf8_smp_count [] = 0"
  by (simp add: utf8_smp_count_def)

lemma cesu8_smp_count_Cons:
  "cesu8_smp_count (x # xs) = (if u8j__is_cesu8_smp (x # xs) then 1 else 0) + cesu8_smp_count xs"
  unfolding cesu8_smp_count_def by (rule count_offsets_Cons)

lemma utf8_smp_count_Cons:
  "utf8_smp_count (x # xs) = (if u8j__is_utf8_smp (x # xs) then 1 else 0) + utf8_smp_count xs"
  unfolding utf8_smp_count_def by (rule count_offsets_Cons)

lemma cesu8_smp_length: "u8j__is_cesu8_smp s \<Longrightarrow> 6 \<le> length s"
proof -
  assume "u8j__is_cesu8_smp s"
  then have "byte_at s 5 \<noteq> 0" by (auto simp: u8j__is_cesu8_smp_def)
  then have "5 < length s" by (rule byte_at_nonzero)
  then show ?thesis by simp
qed

lemma utf8_smp_length: "u8j__is_utf8_smp s \<Longrightarrow> 4 \<le> length s"
proof -
  assume "u8j__is_utf8_smp s"
  then have "byte_at s 3 \<noteq> 0" by (auto simp: u8j__is_utf8_smp_def)
  then have "3 < length s" by (rule byte_at_nonzero)
  then show ?thesis by simp
qed

lemma cesu8_smp_not_adjacent: "u8j__is_cesu8_smp (x # xs) \<Longrightarrow> \<not> u8j__is_cesu8_smp xs"
  by (auto simp: u8j__is_cesu8_smp_def)

lemma cesu8_smp_count_bound: "2 * cesu8_smp_count s \<le> length s"
proof (induction s rule: induct_list012)
  case 1
  show ?case by simp
next
  case (2 x)
  have "\<not> u8j__is_cesu8_smp [x]" using cesu8_smp_length [of "[x]"] by auto
  then show ?case by (simp add: cesu8_smp_count_Cons)
next
  case (3 x y zs)
  show ?case
  proof (cases "u8j__is_cesu8_smp (x # y # zs)")
    case True
    then have "\<not> u8j__is_cesu8_smp (y # zs)" by (rule cesu8_smp_not_adjacent)
    with True "3.IH"(1) show ?thesis by (simp add: cesu8_smp_count_Cons)
  next
    case False
    with "3.IH"(2) show ?thesis by (simp add: cesu8_smp_count_Cons [of x])
  qed
qed

lemma size_add_small: "a + b < SIZE_RANGE \<Longrightarrow> size_add a b = a + b"
  by (simp add: size_add_def)

lemma size_sub_small: "b \<le> a \<Longrightarrow> a < SIZE_RANGE \<Longrightarrow> size_sub a b = a - b"
proof -
  assume b: "b \<le> a" and a: "a < SIZE_RANGE"
  have "(int a - int b) mod int SIZE_RANGE = int a - int b"
    using a b by (intro mod_pos_pos_trivial) auto
  with b show ?thesis by (simp add: size_sub_def)
qed

lemma smiley_counts:
  "utf8_smp_count [0xf0, 0x9f, 0x98, 0x80] = 1"
  "cesu8_smp_count [0xed, 0xa0, 0xbd, 0xed, 0xb8, 0x80] = 1"
  "utf8_smp_count [0x61] = 0"
  "cesu8_smp_count [0x61] = 0"
  by (simp_all add: utf8_smp_count_Cons cesu8_smp_count_Cons u8j__is_utf8_smp_def
        u8j__is_cesu8_smp_def)


subsection \<open>The fast path\<close>

text \<open>
  Claim C5. For a string without a special sequence of the source encoding,
  \<open>u8j__as_cesu8\<close> and \<open>u8j__as_utf8\<close> return the input pointer itself, leave \<open>*mem\<close>
  NULL and call \<open>u8j__malloc\<close> not at all, whatever the buffer size and whether or not
  an allocation would fail.
\<close>

theorem no_conversion_fast_path:
  "(0 \<notin> set s \<and> utf8_smp_count s = 0 \<longrightarrow>
      u8j__as_cesu8 oom (Some s) bufsiz =
        Inr \<lparr>ret = Original, mem = None, mallocs = [], text_of = Some s\<rparr>) \<and>
   (0 \<notin> set s \<and> cesu8_smp_count s = 0 \<longrightarrow>
      u8j__as_utf8 oom (Some s) bufsiz =
        Inr \<lparr>ret = Original, mem = None, mallocs = [], text_of = Some s\<rparr>)"
  by (simp add: u8j_cesu8_len_count u8j_utf8_len_count del: u8j_cesu8_len.simps u8j_utf8_len.simps)

theorem no_conversion_fast_path_witness:
  "u8j__as_cesu8 False (Some [0x61]) 256 =
     Inr \<lparr>ret = Original, mem = None, mallocs = [], text_of = Some [0x61]\<rparr> \<and>
   u8j__as_utf8 False (Some [0x61]) 256 =
     Inr \<lparr>ret = Original, mem = None, mallocs = [], text_of = Some [0x61]\<rparr>"
  using no_conversion_fast_path [of "[0x61]" False 256]
  by (simp add: smiley_counts del: u8j__as_cesu8.simps u8j__as_utf8.simps)


subsection \<open>Destination lengths\<close>

text \<open>
  Claim C4. For a string with \<open>k\<close> special sequences, \<open>u8j_cesu8_len\<close> returns the
  length plus \<open>2k\<close> and \<open>u8j_utf8_len\<close> the length minus \<open>2k\<close> (which is never
  negative), and both return 0 when \<open>k\<close> is 0. The sum must fit \<open>size_t\<close>: the source
  does not check the addition for wrap-around.
\<close>

theorem destination_length:
  "(0 \<notin> set s \<and> length s + 2 * utf8_smp_count s < SIZE_RANGE \<longrightarrow>
      u8j_cesu8_len (Some s) =
        (if utf8_smp_count s = 0 then 0 else length s + 2 * utf8_smp_count s)) \<and>
   (0 \<notin> set c \<and> length c < SIZE_RANGE \<longrightarrow>
      2 * cesu8_smp_count c \<le> length c \<and>
      u8j_utf8_len (Some c) =
        (if cesu8_smp_count c = 0 then 0 else length c - 2 * cesu8_smp_count c))"
proof (intro conjI impI)
  assume "0 \<notin> set s \<and> length s + 2 * utf8_smp_count s < SIZE_RANGE"
  then show "u8j_cesu8_len (Some s) =
        (if utf8_smp_count s = 0 then 0 else length s + 2 * utf8_smp_count s)"
    by (simp add: u8j_cesu8_len_count size_add_small mult.commute
             del: u8j_cesu8_len.simps)
next
  show "2 * cesu8_smp_count c \<le> length c" by (rule cesu8_smp_count_bound)
next
  assume "0 \<notin> set c \<and> length c < SIZE_RANGE"
  then show "u8j_utf8_len (Some c) =
        (if cesu8_smp_count c = 0 then 0 else length c - 2 * cesu8_smp_count c)"
    using cesu8_smp_count_bound [of c]
    by (simp add: u8j_utf8_len_count size_sub_small mult.commute
             del: u8j_utf8_len.simps)
qed

theorem destination_length_witness:
  "u8j_cesu8_len (Some [0xf0, 0x9f, 0x98, 0x80]) = 6 \<and>
   u8j_utf8_len (Some [0xed, 0xa0, 0xbd, 0xed, 0xb8, 0x80]) = 4 \<and>
   u8j_cesu8_len (Some [0x61]) = 0 \<and>
   u8j_utf8_len (Some [0x61]) = 0"
  using destination_length [of "[0xf0, 0x9f, 0x98, 0x80]" "[0xed, 0xa0, 0xbd, 0xed, 0xb8, 0x80]"]
        destination_length [of "[0x61]" "[0x61]"]
  by (simp add: smiley_counts SIZE_RANGE_def del: u8j_cesu8_len.simps u8j_utf8_len.simps)


subsection \<open>The length-bounded scan\<close>

lemma smp_at_reads:
  "p' \<in> set (snd (u8j__is_utf8_smp_at m p)) \<Longrightarrow> p \<le> p' \<and> p' < p + 4"
  by (auto simp: u8j__is_utf8_smp_at_def split: if_splits)

lemma smp_at_agrees:
  "fst (u8j__is_utf8_smp_at m p) = u8j__is_utf8_smp [m p, m (p + 1), m (p + 2), m (p + 3)]"
  by (auto simp: u8j__is_utf8_smp_at_def u8j__is_utf8_smp_def)

lemma u8j_lcesu8_len_loop_inv:
  assumes "4 \<le> n" and "n < SIZE_RANGE" and "i \<le> n - 3"
    and "tested sc = [0..<i]" and "\<forall>p \<in> set (reads sc). p < n"
  shows "tested (u8j_lcesu8_len_loop m n i sc) = [0..<n - 3] \<and>
         (\<forall>p \<in> set (reads (u8j_lcesu8_len_loop m n i sc)). p < n)"
  using assms
proof (induction "n - 3 - i" arbitrary: i sc)
  case 0
  then have i: "i = n - 3" by simp
  have ss: "size_sub n 4 = n - 4" using "0.prems" by (simp add: size_sub_small)
  have "u8j_lcesu8_len_loop m n i sc = sc"
    using i ss "0.prems" by (subst u8j_lcesu8_len_loop.simps) simp
  with i "0.prems" show ?case by simp
next
  case (Suc d)
  have ss: "size_sub n 4 = n - 4" using Suc.prems by (simp add: size_sub_small)
  from Suc have le: "i \<le> n - 4" by simp
  obtain b rs where t: "u8j__is_utf8_smp_at m i = (b, rs)"
    by (cases "u8j__is_utf8_smp_at m i")
  let ?sc = "\<lparr>smp_count = (if b then smp_count sc + 1 else smp_count sc),
              tested = tested sc @ [i], reads = reads sc @ rs\<rparr>"
  have rs: "\<forall>p \<in> set rs. p < n"
    using smp_at_reads [of _ m i] t le Suc.prems by fastforce
  have "tested (u8j_lcesu8_len_loop m n (i + 1) ?sc) = [0..<n - 3] \<and>
       (\<forall>p \<in> set (reads (u8j_lcesu8_len_loop m n (i + 1) ?sc)). p < n)"
    using Suc.hyps(2) Suc.prems le rs by (intro Suc.hyps(1)) auto
  moreover have "u8j_lcesu8_len_loop m n i sc = u8j_lcesu8_len_loop m n (i + 1) ?sc"
    using le ss t by (subst u8j_lcesu8_len_loop.simps) simp
  ultimately show ?case by simp
qed


text \<open>
  Claim C9. \<open>u8j_lcesu8_len\<close> on a buffer of declared length \<open>n\<close> returns 0 without a
  read when \<open>n\<close> is below 4; otherwise it applies the test at the offsets 0 to \<open>n - 4\<close>
  and at no other, so at offsets \<open>i\<close> with \<open>i + 4 \<le> n\<close> only, and every byte it reads
  lies below \<open>n\<close>, whatever the memory behind the buffer holds.
\<close>

theorem bounded_scan_reads:
  "n < SIZE_RANGE \<longrightarrow>
     (n < 4 \<longrightarrow> u8j_lcesu8_len m n = (0, \<lparr>smp_count = 0, tested = [], reads = []\<rparr>)) \<and>
     (\<forall>i \<in> set (tested (snd (u8j_lcesu8_len m n))). i + 4 \<le> n) \<and>
     (\<forall>p \<in> set (reads (snd (u8j_lcesu8_len m n))). p < n) \<and>
     (4 \<le> n \<longrightarrow> tested (snd (u8j_lcesu8_len m n)) = [0..<n - 3])"
proof (intro impI)
  assume n: "n < SIZE_RANGE"
  show "(n < 4 \<longrightarrow> u8j_lcesu8_len m n = (0, \<lparr>smp_count = 0, tested = [], reads = []\<rparr>)) \<and>
     (\<forall>i \<in> set (tested (snd (u8j_lcesu8_len m n))). i + 4 \<le> n) \<and>
     (\<forall>p \<in> set (reads (snd (u8j_lcesu8_len m n))). p < n) \<and>
     (4 \<le> n \<longrightarrow> tested (snd (u8j_lcesu8_len m n)) = [0..<n - 3])"
  proof (cases "n < 4")
    case True
    then show ?thesis by (simp add: u8j_lcesu8_len_def)
  next
    case False
    then have "4 \<le> n" by simp
    from u8j_lcesu8_len_loop_inv [OF this n, of 0 "\<lparr>smp_count = 0, tested = [], reads = []\<rparr>" m]
    have "tested (u8j_lcesu8_len_loop m n 0 \<lparr>smp_count = 0, tested = [], reads = []\<rparr>)
            = [0..<n - 3] \<and>
          (\<forall>p \<in> set (reads (u8j_lcesu8_len_loop m n 0 \<lparr>smp_count = 0, tested = [], reads = []\<rparr>)).
              p < n)"
      by simp
    with False show ?thesis by (auto simp: u8j_lcesu8_len_def Let_def)
  qed
qed

theorem bounded_scan_reads_witness:
  "u8j_lcesu8_len truncated_sequence 3 = (0, \<lparr>smp_count = 0, tested = [], reads = []\<rparr>) \<and>
   tested (snd (u8j_lcesu8_len truncated_sequence 5)) = [0, 1]"
proof -
  have "[0..<5 - 3] = [0, Suc 0]" by (simp add: upt_conv_Cons)
  with bounded_scan_reads [of 3 truncated_sequence] bounded_scan_reads [of 5 truncated_sequence]
  show ?thesis by (simp add: SIZE_RANGE_def)
qed

subsection \<open>Bit patterns\<close>

lemma byte_eqI:
  fixes a b :: byte
  assumes "bit a 0 = bit b 0" "bit a 1 = bit b 1" "bit a 2 = bit b 2" "bit a 3 = bit b 3"
    "bit a 4 = bit b 4" "bit a 5 = bit b 5" "bit a 6 = bit b 6" "bit a 7 = bit b 7"
  shows "a = b"
proof (rule bit_word_eqI)
  fix k assume "k < LENGTH(8)"
  then have "k \<in> {0, 1, 2, 3, 4, 5, 6, 7}" by auto
  with assms show "bit a k = bit b k" by auto
qed

lemma byte_exhaust: "\<exists>n \<in> set [0..<256]. (w::byte) = of_nat n"
proof -
  have "unat w < 256" using unsigned_less [of w] by simp
  moreover have "w = of_nat (unat w)" by simp
  ultimately show ?thesis by (metis atLeastLessThan_iff set_upt zero_le)
qed

lemma top5_all:
  "\<forall>n \<in> set [0..<256]. (let w = (of_nat n :: byte) in
      w AND 0xe0 = 0 \<longrightarrow> ((w AND 0x10) = 0) \<noteq> ((w AND 0x0f) = 0) \<longrightarrow> (w - 1) AND 0xf0 = 0)"
  by code_simp

lemma top5_minus_1:
  fixes w :: byte
  assumes "w AND 0xe0 = 0" and "((w AND 0x10) = 0) \<noteq> ((w AND 0x0f) = 0)"
  shows "(w - 1) AND 0xf0 = 0"
proof -
  from byte_exhaust [of w] obtain n where "n \<in> set [0..<256]" and "w = of_nat n" by blast
  with top5_all assms show ?thesis by (auto simp: Let_def)
qed

lemma split_f8: "(u::byte) = (u AND 0xf8) OR (u AND 0x07)"
  by (rule byte_eqI) (simp_all add: bit_simps)

lemma split_c0: "(u::byte) = (u AND 0xc0) OR (u AND 0x3f)"
  by (rule byte_eqI) (simp_all add: bit_simps)

lemma split_f0: "(u::byte) = (u AND 0xf0) OR (u AND 0x0f)"
  by (rule byte_eqI) (simp_all add: bit_simps)

lemma top5_high:
  "(push_bit 2 ((u0::byte) AND 0x07) OR drop_bit 4 ((u1::byte) AND 0x30)) AND 0xe0 = 0"
  by (rule byte_eqI) (simp_all add: bit_simps)

lemma top5_bit4:
  "(push_bit 2 ((u0::byte) AND 0x07) OR drop_bit 4 ((u1::byte) AND 0x30)) AND 0x10 =
     push_bit 2 (u0 AND 0x04)"
  by (rule byte_eqI) (simp_all add: bit_simps)

lemma top5_bit4_back:
  "drop_bit 2 ((push_bit 2 ((u0::byte) AND 0x07) OR drop_bit 4 ((u1::byte) AND 0x30)) AND 0x10) =
     u0 AND 0x04"
  by (rule byte_eqI) (simp_all add: bit_simps)

lemma top5_low:
  "(push_bit 2 ((u0::byte) AND 0x07) OR drop_bit 4 ((u1::byte) AND 0x30)) AND 0x0f =
     push_bit 2 (((u0 AND 0x03) OR (u1 AND 0x30)) AND 0x03) OR
     drop_bit 4 (((u0 AND 0x03) OR (u1 AND 0x30)) AND 0x30)"
  by (rule byte_eqI) (simp_all add: bit_simps)

lemma top5_low_back:
  "(u0 AND 0x03) OR (u1 AND 0x30) =
     drop_bit 2 (((push_bit 2 ((u0::byte) AND 0x07) OR drop_bit 4 ((u1::byte) AND 0x30)) AND 0x0f)
                 AND 0x0c)
     OR push_bit 4 (((push_bit 2 (u0 AND 0x07) OR drop_bit 4 (u1 AND 0x30)) AND 0x0f) AND 0x03)"
  by (rule byte_eqI) (simp_all add: bit_simps)

lemma or_and_f0: "((0xa0::byte) OR t) AND 0xf0 = 0xa0 OR (t AND 0xf0)"
  by (rule byte_eqI) (simp_all add: bit_simps)

lemma or_and_0f: "((0xa0::byte) OR t) AND 0x0f = t AND 0x0f"
  by (rule byte_eqI) (simp_all add: bit_simps)

lemma d0_bits:
  "0xf0 OR drop_bit 2 (push_bit 2 ((u0::byte) AND 0x07) OR drop_bit 4 ((u1::byte) AND 0x30)) =
     0xf0 OR (u0 AND 0x07)"
  by (rule byte_eqI) (simp_all add: bit_simps)

lemma d1_bits:
  "0x80 OR push_bit 4 ((push_bit 2 ((u0::byte) AND 0x07) OR drop_bit 4 ((u1::byte) AND 0x30)) AND 0x03)
      OR drop_bit 2 ((0x80 OR push_bit 2 (u1 AND 0x0f) OR drop_bit 4 ((u2::byte) AND 0x30)) AND 0x3f) =
     0x80 OR (u1 AND 0x3f)"
  by (rule byte_eqI) (simp_all add: bit_simps)

lemma d2_bits:
  "0x80 OR push_bit 4 ((0x80 OR push_bit 2 ((u1::byte) AND 0x0f) OR drop_bit 4 ((u2::byte) AND 0x30))
                        AND 0x03)
      OR ((0xb0 OR (u2 AND 0x0f)) AND 0x0f) =
     0x80 OR (u2 AND 0x3f)"
  by (rule byte_eqI) (simp_all add: bit_simps)

lemma c2_bits:
  "(0x80 OR push_bit 2 ((u1::byte) AND 0x0f) OR drop_bit 4 ((u2::byte) AND 0x30)) AND 0xc0 = 0x80"
  by (rule byte_eqI) (simp_all add: bit_simps)

lemma c4_bits: "(0xb0 OR ((u2::byte) AND 0x0f)) AND 0xf0 = 0xb0"
  by (rule byte_eqI) (simp_all add: bit_simps)

lemma high_f0: "(0xf0 OR (x::byte)) AND 0xf0 = 0xf0"
  by (rule byte_eqI) (simp_all add: bit_simps)

lemma high_80: "(0x80 OR (x::byte)) AND 0x80 = 0x80"
  by (rule byte_eqI) (simp_all add: bit_simps)

text \<open>What the test for a supplementary-plane sequence says about the five bits.\<close>

lemma top5_range:
  fixes u0 u1 :: byte
  assumes "((u0 AND 0x04) = 0) \<noteq> (((u0 AND 0x03) OR (u1 AND 0x30)) = 0)"
  shows "((push_bit 2 (u0 AND 0x07) OR drop_bit 4 (u1 AND 0x30)) - 1) AND 0xf0 = 0"
proof (rule top5_minus_1)
  let ?w = "push_bit 2 (u0 AND 0x07) OR drop_bit 4 (u1 AND 0x30)"
  show "?w AND 0xe0 = 0" by (rule top5_high)
  have a: "(?w AND 0x10) = 0 \<longleftrightarrow> (u0 AND 0x04) = 0"
  proof
    assume "?w AND 0x10 = 0"
    then have "drop_bit 2 (?w AND 0x10) = 0" by simp
    then show "u0 AND 0x04 = 0" by (simp only: top5_bit4_back)
  next
    assume "u0 AND 0x04 = 0"
    then have "push_bit 2 (u0 AND 0x04) = 0" by simp
    then show "?w AND 0x10 = 0" by (simp only: top5_bit4)
  qed
  have b: "(?w AND 0x0f) = 0 \<longleftrightarrow> ((u0 AND 0x03) OR (u1 AND 0x30)) = 0"
  proof
    assume z: "?w AND 0x0f = 0"
    show "(u0 AND 0x03) OR (u1 AND 0x30) = 0"
      by (subst top5_low_back, simp only: z) simp
  next
    assume y: "(u0 AND 0x03) OR (u1 AND 0x30) = 0"
    show "?w AND 0x0f = 0"
      by (subst top5_low, simp only: y) simp
  qed
  from a b assms show "((?w AND 0x10) = 0) \<noteq> ((?w AND 0x0f) = 0)" by simp
qed

subsection \<open>Special sequences, byte by byte\<close>

lemma pair_bytes:
  fixes u0 u1 u2 :: byte
  assumes h0: "u0 AND 0xf8 = 0xf0" and h1: "u1 AND 0xc0 = 0x80" and h2: "u2 AND 0xc0 = 0x80"
    and hx: "((u0 AND 0x04) = 0) \<noteq> (((u0 AND 0x03) OR (u1 AND 0x30)) = 0)"
  defines "top5 \<equiv> push_bit 2 (u0 AND 0x07) OR drop_bit 4 (u1 AND 0x30)"
  defines "c1 \<equiv> 0xa0 OR (top5 - 1)"
  defines "c2 \<equiv> 0x80 OR push_bit 2 (u1 AND 0x0f) OR drop_bit 4 (u2 AND 0x30)"
  defines "c4 \<equiv> 0xb0 OR (u2 AND 0x0f)"
  shows "c1 AND 0xf0 = 0xa0"
    and "(c1 AND 0x0f) + 1 = top5"
    and "0xf0 OR drop_bit 2 top5 = u0"
    and "0x80 OR push_bit 4 (top5 AND 0x03) OR drop_bit 2 (c2 AND 0x3f) = u1"
    and "0x80 OR push_bit 4 (c2 AND 0x03) OR (c4 AND 0x0f) = u2"
proof -
  have t: "(top5 - 1) AND 0xf0 = 0"
    unfolding top5_def using hx by (rule top5_range)
  show "c1 AND 0xf0 = 0xa0"
    unfolding c1_def by (simp only: or_and_f0 t) simp
  have "(top5 - 1) AND 0x0f = top5 - 1"
  proof -
    have "top5 - 1 = ((top5 - 1) AND 0xf0) OR ((top5 - 1) AND 0x0f)" by (rule split_f0)
    then show ?thesis by (simp only: t) simp
  qed
  then have "c1 AND 0x0f = top5 - 1"
    unfolding c1_def by (simp only: or_and_0f)
  then show "(c1 AND 0x0f) + 1 = top5" by simp
  have "0xf0 OR drop_bit 2 top5 = (u0 AND 0xf8) OR (u0 AND 0x07)"
    unfolding top5_def by (simp only: d0_bits h0)
  then show "0xf0 OR drop_bit 2 top5 = u0" by (simp only: split_f8 [symmetric])
  have "0x80 OR push_bit 4 (top5 AND 0x03) OR drop_bit 2 (c2 AND 0x3f) = (u1 AND 0xc0) OR (u1 AND 0x3f)"
    unfolding top5_def c2_def by (simp only: d1_bits h1)
  then show "0x80 OR push_bit 4 (top5 AND 0x03) OR drop_bit 2 (c2 AND 0x3f) = u1"
    by (simp only: split_c0 [symmetric])
  have "0x80 OR push_bit 4 (c2 AND 0x03) OR (c4 AND 0x0f) = (u2 AND 0xc0) OR (u2 AND 0x3f)"
    unfolding c2_def c4_def by (simp only: d2_bits h2)
  then show "0x80 OR push_bit 4 (c2 AND 0x03) OR (c4 AND 0x0f) = u2"
    by (simp only: split_c0 [symmetric])
qed

lemma length_cesu8_of_smp [simp]: "length (cesu8_of_smp s) = 6"
  by (simp add: cesu8_of_smp_def Let_def)

lemma length_utf8_of_pair [simp]: "length (utf8_of_pair s) = 4"
  by (simp add: utf8_of_pair_def Let_def)

lemma take4_bytes:
  "4 \<le> length s \<Longrightarrow> take 4 s = [byte_at s 0, byte_at s 1, byte_at s 2, byte_at s 3]"
  by (auto simp: Suc_le_length_iff numeral_eq_Suc)

lemma byte_at_Cons_1: "byte_at (x # xs) 1 = byte_at xs 0"
  by simp

lemma smp_becomes_pair:
  assumes "u8j__is_utf8_smp s"
  shows "u8j__is_cesu8_smp (cesu8_of_smp s @ rest)"
proof -
  from assms have h: "byte_at s 0 AND 0xf8 = 0xf0" "byte_at s 1 AND 0xc0 = 0x80"
    "byte_at s 2 AND 0xc0 = 0x80" "byte_at s 3 AND 0xc0 = 0x80"
    "((byte_at s 0 AND 0x04) = 0) \<noteq> (((byte_at s 0 AND 0x03) OR (byte_at s 1 AND 0x30)) = 0)"
    by (simp_all add: u8j__is_utf8_smp_def)
  note p = pair_bytes [OF h(1) h(2) h(3) h(5)]
  have c: "cesu8_of_smp s @ rest =
      0xed # (0xa0 OR ((push_bit 2 (byte_at s 0 AND 0x07) OR drop_bit 4 (byte_at s 1 AND 0x30)) - 1))
      # (0x80 OR push_bit 2 (byte_at s 1 AND 0x0f) OR drop_bit 4 (byte_at s 2 AND 0x30))
      # 0xed # (0xb0 OR (byte_at s 2 AND 0x0f)) # byte_at s 3 # rest"
    by (simp only: cesu8_of_smp_def Let_def append_Cons append_Nil)
  show ?thesis
    unfolding c
    by (simp only: u8j__is_cesu8_smp_def byte_at_Cons_0 byte_at_Cons_numeral pred_numeral_simps
          Num.BitM.simps numeral_One p(1) c2_bits c4_bits h(4) byte_at_Cons_1
          simp_thms)
qed

lemma pair_becomes_smp:
  assumes "u8j__is_utf8_smp s"
  shows "utf8_of_pair (cesu8_of_smp s @ rest) = take 4 s"
proof -
  from assms have h: "byte_at s 0 AND 0xf8 = 0xf0" "byte_at s 1 AND 0xc0 = 0x80"
    "byte_at s 2 AND 0xc0 = 0x80" "byte_at s 3 AND 0xc0 = 0x80"
    "((byte_at s 0 AND 0x04) = 0) \<noteq> (((byte_at s 0 AND 0x03) OR (byte_at s 1 AND 0x30)) = 0)"
    by (simp_all add: u8j__is_utf8_smp_def)
  note p = pair_bytes [OF h(1) h(2) h(3) h(5)]
  let ?top5 = "push_bit 2 (byte_at s 0 AND 0x07) OR drop_bit 4 (byte_at s 1 AND 0x30)"
  let ?c1 = "0xa0 OR (?top5 - 1)"
  let ?c2 = "0x80 OR push_bit 2 (byte_at s 1 AND 0x0f) OR drop_bit 4 (byte_at s 2 AND 0x30)"
  let ?c4 = "0xb0 OR (byte_at s 2 AND 0x0f)"
  have c: "cesu8_of_smp s @ rest = 0xed # ?c1 # ?c2 # 0xed # ?c4 # byte_at s 3 # rest"
    by (simp only: cesu8_of_smp_def Let_def append_Cons append_Nil)
  have "utf8_of_pair (0xed # ?c1 # ?c2 # 0xed # ?c4 # byte_at s 3 # rest) =
      [0xf0 OR drop_bit 2 ((?c1 AND 0x0f) + 1),
       0x80 OR push_bit 4 (((?c1 AND 0x0f) + 1) AND 0x03) OR drop_bit 2 (?c2 AND 0x3f),
       0x80 OR push_bit 4 (?c2 AND 0x03) OR (?c4 AND 0x0f),
       byte_at s 3]"
    by (simp only: utf8_of_pair_def Let_def byte_at_Cons_0 byte_at_Cons_numeral pred_numeral_simps
          Num.BitM.simps numeral_One byte_at_Cons_1)
  also have "\<dots> = [byte_at s 0, byte_at s 1, byte_at s 2, byte_at s 3]"
    by (simp only: p)
  also have "\<dots> = take 4 s"
    using utf8_smp_length [OF assms] by (simp add: take4_bytes)
  finally show ?thesis by (simp only: c)
qed

subsection \<open>The write loops\<close>

lemma cesu8_of_utf8_Nil [simp]: "cesu8_of_utf8 [] = []"
  by (subst cesu8_of_utf8.simps) simp

lemma utf8_of_cesu8_Nil [simp]: "utf8_of_cesu8 [] = []"
  by (subst utf8_of_cesu8.simps) simp

lemma utf8_smp_nonempty: "u8j__is_utf8_smp s \<Longrightarrow> s \<noteq> []"
  using utf8_smp_length [of s] by auto

lemma cesu8_smp_nonempty: "u8j__is_cesu8_smp s \<Longrightarrow> s \<noteq> []"
  using cesu8_smp_length [of s] by auto

lemma cesu8_of_utf8_smp:
  "u8j__is_utf8_smp s \<Longrightarrow> cesu8_of_utf8 s = cesu8_of_smp s @ cesu8_of_utf8 (drop 4 s)"
  by (subst cesu8_of_utf8.simps) (simp add: utf8_smp_nonempty)

lemma cesu8_of_utf8_Cons:
  "\<not> u8j__is_utf8_smp (x # xs) \<Longrightarrow> cesu8_of_utf8 (x # xs) = x # cesu8_of_utf8 xs"
  by (subst cesu8_of_utf8.simps) simp

lemma utf8_of_cesu8_smp:
  "u8j__is_cesu8_smp s \<Longrightarrow> utf8_of_cesu8 s = utf8_of_pair s @ utf8_of_cesu8 (drop 6 s)"
  by (subst utf8_of_cesu8.simps) (simp add: cesu8_smp_nonempty)

lemma utf8_of_cesu8_Cons:
  "\<not> u8j__is_cesu8_smp (x # xs) \<Longrightarrow> utf8_of_cesu8 (x # xs) = x # utf8_of_cesu8 xs"
  by (subst utf8_of_cesu8.simps) simp

lemma c_str_terminated: "0 \<notin> set x \<Longrightarrow> c_str (x @ [0]) = x"
  unfolding c_str_def by (subst takeWhile_append2) auto

lemma u8j_write_utf8_loop_eq:
  "0 \<notin> set c \<Longrightarrow> u8j_write_utf8_loop c dst = dst @ utf8_of_cesu8 c @ [0]"
proof (induction c arbitrary: dst rule: utf8_of_cesu8.induct)
  case (1 s)
  show ?case
  proof (cases s)
    case Nil
    then show ?thesis by (subst u8j_write_utf8_loop.simps) simp
  next
    case (Cons x xs)
    with "1.prems" have x: "x \<noteq> 0" and xs: "0 \<notin> set xs" by auto
    show ?thesis
    proof (cases "u8j__is_cesu8_smp s")
      case True
      have "0 \<notin> set (drop 6 s)" using "1.prems" by (auto dest: in_set_dropD)
      with True Cons have "u8j_write_utf8_loop (drop 6 s) (dst @ utf8_of_pair s) =
          (dst @ utf8_of_pair s) @ utf8_of_cesu8 (drop 6 s) @ [0]"
        by (intro "1.IH"(1)) auto
      with True x Cons show ?thesis
        by (subst u8j_write_utf8_loop.simps) (simp add: utf8_of_cesu8_smp)
    next
      case False
      with Cons xs have "u8j_write_utf8_loop (tl s) (dst @ [x]) =
          (dst @ [x]) @ utf8_of_cesu8 (tl s) @ [0]"
        by (intro "1.IH"(2)) auto
      with False x Cons show ?thesis
        by (subst u8j_write_utf8_loop.simps) (simp add: utf8_of_cesu8_Cons)
    qed
  qed
qed

lemma u8j_write_cesu8_loop2_eq:
  "fin = length dst + length s \<Longrightarrow> u8j_write_cesu8_loop2 s dst fin = dst @ s @ [0]"
proof (induction s arbitrary: dst)
  case Nil
  then show ?case by (subst u8j_write_cesu8_loop2.simps) simp
next
  case (Cons x xs)
  have "u8j_write_cesu8_loop2 xs (dst @ [x]) fin = (dst @ [x]) @ xs @ [0]"
    using Cons.prems by (intro Cons.IH) simp
  with Cons.prems show ?case by (subst u8j_write_cesu8_loop2.simps) simp
qed

lemma cesu8_of_utf8_short:
  "length (cesu8_of_utf8 s) < 6 \<Longrightarrow> cesu8_of_utf8 s = s"
proof (induction s)
  case Nil
  show ?case by simp
next
  case (Cons x xs)
  show ?case
  proof (cases "u8j__is_utf8_smp (x # xs)")
    case True
    with Cons.prems show ?thesis by (simp add: cesu8_of_utf8_smp)
  next
    case False
    with Cons show ?thesis by (simp add: cesu8_of_utf8_Cons)
  qed
qed

lemma u8j_write_cesu8_loops_eq:
  "fin = length dst + length (cesu8_of_utf8 s) \<Longrightarrow>
   (case u8j_write_cesu8_loop1 s dst fin of (s', dst') \<Rightarrow> u8j_write_cesu8_loop2 s' dst' fin) =
     dst @ cesu8_of_utf8 s @ [0]"
proof (induction s arbitrary: dst rule: cesu8_of_utf8.induct)
  case (1 s)
  show ?case
  proof (cases "length dst + 6 \<le> fin")
    case False
    with "1.prems" have short: "length (cesu8_of_utf8 s) < 6" by simp
    then have e: "cesu8_of_utf8 s = s" by (rule cesu8_of_utf8_short)
    have "u8j_write_cesu8_loop1 s dst fin = (s, dst)"
      using False by (subst u8j_write_cesu8_loop1.simps) simp
    moreover have "u8j_write_cesu8_loop2 s dst fin = dst @ s @ [0]"
      using "1.prems" e by (intro u8j_write_cesu8_loop2_eq) simp
    ultimately show ?thesis using e by simp
  next
    case long: True
    with "1.prems" have ne: "s \<noteq> []" by auto
    show ?thesis
    proof (cases "u8j__is_utf8_smp s")
      case True
      have step: "u8j_write_cesu8_loop1 s dst fin =
          u8j_write_cesu8_loop1 (drop 4 s) (dst @ cesu8_of_smp s) fin"
        using long True by (subst u8j_write_cesu8_loop1.simps) simp
      have rest: "(case u8j_write_cesu8_loop1 (drop 4 s) (dst @ cesu8_of_smp s) fin of
              (s', dst') \<Rightarrow> u8j_write_cesu8_loop2 s' dst' fin) =
            (dst @ cesu8_of_smp s) @ cesu8_of_utf8 (drop 4 s) @ [0]"
        using ne True "1.prems" by (intro "1.IH"(1)) (simp_all add: cesu8_of_utf8_smp)
      show ?thesis unfolding step rest using True by (simp add: cesu8_of_utf8_smp)
    next
      case False
      from ne obtain x xs where s: "s = x # xs" by (cases s) auto
      have step: "u8j_write_cesu8_loop1 s dst fin =
          u8j_write_cesu8_loop1 (tl s) (dst @ [x]) fin"
        using long False s by (subst u8j_write_cesu8_loop1.simps) simp
      have rest: "(case u8j_write_cesu8_loop1 (tl s) (dst @ [x]) fin of
              (s', dst') \<Rightarrow> u8j_write_cesu8_loop2 s' dst' fin) =
            (dst @ [x]) @ cesu8_of_utf8 (tl s) @ [0]"
        using ne False "1.prems" s by (intro "1.IH"(2)) (simp_all add: cesu8_of_utf8_Cons)
      show ?thesis unfolding step rest using False s by (simp add: cesu8_of_utf8_Cons)
    qed
  qed
qed

lemma u8j_write_cesu8_eq:
  "n = length (cesu8_of_utf8 s) \<Longrightarrow> u8j_write_cesu8 s n = cesu8_of_utf8 s @ [0]"
  unfolding u8j_write_cesu8_def using u8j_write_cesu8_loops_eq [of n "[]" s] by simp

subsection \<open>Lengths and terminators\<close>

lemma lead_not_continuation:
  fixes w :: byte
  assumes "w AND 0xf8 = 0xf0"
  shows "w AND 0xc0 \<noteq> 0x80"
proof -
  have "(w AND 0xf8) AND 0xc0 = w AND 0xc0"
    by (rule byte_eqI) (simp_all add: bit_simps)
  with assms have "w AND 0xc0 = 0xf0 AND 0xc0" by simp
  then show ?thesis by simp
qed

lemma utf8_smp_not_inside:
  assumes "u8j__is_utf8_smp s" and "k = 1 \<or> k = 2 \<or> k = 3"
  shows "\<not> u8j__is_utf8_smp (drop k s)"
proof
  assume "u8j__is_utf8_smp (drop k s)"
  then have "byte_at s k AND 0xf8 = 0xf0"
    by (simp add: u8j__is_utf8_smp_def byte_at_drop)
  then have "byte_at s k AND 0xc0 \<noteq> 0x80" by (rule lead_not_continuation)
  moreover from assms have "byte_at s k AND 0xc0 = 0x80"
    by (auto simp: u8j__is_utf8_smp_def)
  ultimately show False by simp
qed

lemma utf8_smp_count_smp:
  assumes "u8j__is_utf8_smp s"
  shows "utf8_smp_count s = 1 + utf8_smp_count (drop 4 s)"
proof -
  from utf8_smp_length [OF assms] obtain a b c d r where s: "s = a # b # c # d # r"
    by (auto simp: Suc_le_length_iff numeral_eq_Suc)
  have "\<not> u8j__is_utf8_smp (drop 1 s)" "\<not> u8j__is_utf8_smp (drop 2 s)"
    "\<not> u8j__is_utf8_smp (drop 3 s)"
    using assms by (simp_all add: utf8_smp_not_inside del: drop_Suc_Cons)
  then have "\<not> u8j__is_utf8_smp (b # c # d # r)" "\<not> u8j__is_utf8_smp (c # d # r)"
    "\<not> u8j__is_utf8_smp (d # r)"
    by (simp_all add: s)
  with assms show ?thesis
    by (simp add: s utf8_smp_count_Cons [of a] utf8_smp_count_Cons [of b]
          utf8_smp_count_Cons [of c] utf8_smp_count_Cons [of d])
qed

lemma length_cesu8_of_utf8:
  "length (cesu8_of_utf8 s) = length s + 2 * utf8_smp_count s"
proof (induction s rule: cesu8_of_utf8.induct)
  case (1 s)
  show ?case
  proof (cases s)
    case Nil
    then show ?thesis by simp
  next
    case (Cons x xs)
    show ?thesis
    proof (cases "u8j__is_utf8_smp s")
      case True
      with Cons have "length (cesu8_of_utf8 (drop 4 s)) =
          length (drop 4 s) + 2 * utf8_smp_count (drop 4 s)"
        by (intro "1.IH"(1)) auto
      with True utf8_smp_length [OF True] show ?thesis
        by (simp add: cesu8_of_utf8_smp utf8_smp_count_smp)
    next
      case False
      with Cons have "length (cesu8_of_utf8 (tl s)) = length (tl s) + 2 * utf8_smp_count (tl s)"
        by (intro "1.IH"(2)) auto
      with False Cons show ?thesis
        by (simp add: cesu8_of_utf8_Cons utf8_smp_count_Cons)
    qed
  qed
qed

lemma cesu8_pair_nonzero:
  assumes "u8j__is_cesu8_smp c" and "length c = 6"
  shows "0 \<notin> set c"
proof
  assume "0 \<in> set c"
  then obtain i where i: "i < 6" "c ! i = 0" using assms(2) by (auto simp: in_set_conv_nth)
  then have z: "byte_at c i = 0" using assms(2) by (simp add: byte_at_def)
  from i(1) have "i = 0 \<or> i = 1 \<or> i = 2 \<or> i = 3 \<or> i = 4 \<or> i = 5" by arith
  with z assms(1) show False by (auto simp: u8j__is_cesu8_smp_def)
qed

lemma cesu8_of_smp_nonzero: "u8j__is_utf8_smp s \<Longrightarrow> 0 \<notin> set (cesu8_of_smp s)"
  using smp_becomes_pair [of s "[]"] by (intro cesu8_pair_nonzero) simp_all

lemma cesu8_of_utf8_nonzero: "0 \<notin> set s \<Longrightarrow> 0 \<notin> set (cesu8_of_utf8 s)"
proof (induction s rule: cesu8_of_utf8.induct)
  case (1 s)
  show ?case
  proof (cases s)
    case Nil
    then show ?thesis by simp
  next
    case (Cons x xs)
    show ?thesis
    proof (cases "u8j__is_utf8_smp s")
      case True
      have "0 \<notin> set (drop 4 s)" using "1.prems" by (auto dest: in_set_dropD)
      with True Cons have "0 \<notin> set (cesu8_of_utf8 (drop 4 s))"
        by (intro "1.IH"(1)) auto
      with True show ?thesis by (simp add: cesu8_of_utf8_smp cesu8_of_smp_nonzero)
    next
      case False
      with Cons "1.prems" have "0 \<notin> set (cesu8_of_utf8 (tl s))"
        by (intro "1.IH"(2)) auto
      with False Cons "1.prems" show ?thesis by (simp add: cesu8_of_utf8_Cons)
    qed
  qed
qed

lemma cesu8_of_utf8_plain: "utf8_smp_count s = 0 \<Longrightarrow> cesu8_of_utf8 s = s"
  by (induction s) (simp_all add: utf8_smp_count_Cons cesu8_of_utf8_Cons split: if_splits)

lemma utf8_of_cesu8_plain: "cesu8_smp_count c = 0 \<Longrightarrow> utf8_of_cesu8 c = c"
  by (induction c) (simp_all add: cesu8_smp_count_Cons utf8_of_cesu8_Cons split: if_splits)

lemma cesu8_smp_count_strict:
  "cesu8_smp_count s \<noteq> 0 \<Longrightarrow> 2 * cesu8_smp_count s < length s"
proof (induction s rule: induct_list012)
  case 1
  then show ?case by simp
next
  case (2 x)
  have "\<not> u8j__is_cesu8_smp [x]" using cesu8_smp_length [of "[x]"] by auto
  with 2 show ?case by (simp add: cesu8_smp_count_Cons)
next
  case (3 x y zs)
  show ?case
  proof (cases "u8j__is_cesu8_smp (x # y # zs)")
    case True
    then have n: "\<not> u8j__is_cesu8_smp (y # zs)" by (rule cesu8_smp_not_adjacent)
    from cesu8_smp_length [OF True] have len: "4 \<le> length zs" by simp
    show ?thesis
    proof (cases "cesu8_smp_count zs = 0")
      case True
      with \<open>u8j__is_cesu8_smp (x # y # zs)\<close> n len show ?thesis
        by (cases zs) (simp_all add: cesu8_smp_count_Cons)
    next
      case False
      with "3.IH"(1) have "2 * cesu8_smp_count zs < length zs" by simp
      with True n show ?thesis by (simp add: cesu8_smp_count_Cons)
    qed
  next
    case False
    with "3.prems" have "cesu8_smp_count (y # zs) \<noteq> 0"
      by (simp add: cesu8_smp_count_Cons [of x])
    with "3.IH"(2) have "2 * cesu8_smp_count (y # zs) < length (y # zs)" by simp
    with False show ?thesis by (simp add: cesu8_smp_count_Cons [of x])
  qed
qed

lemma as_cesu8_text_eq:
  assumes "0 \<notin> set s" and "length s + 2 * utf8_smp_count s < SIZE_RANGE"
  shows "as_cesu8_text s = cesu8_of_utf8 s"
proof (cases "utf8_smp_count s = 0")
  case True
  with assms(1) show ?thesis
    by (simp add: as_cesu8_text_def u8j_cesu8_len_count cesu8_of_utf8_plain
             del: u8j_cesu8_len.simps)
next
  case False
  have n: "u8j_cesu8_len (Some s) = length s + 2 * utf8_smp_count s"
    using assms False
    by (simp add: u8j_cesu8_len_count size_add_small mult.commute del: u8j_cesu8_len.simps)
  have "u8j_write_cesu8 s (length s + 2 * utf8_smp_count s) = cesu8_of_utf8 s @ [0]"
    by (rule u8j_write_cesu8_eq) (simp add: length_cesu8_of_utf8)
  moreover have "c_str (cesu8_of_utf8 s @ [0]) = cesu8_of_utf8 s"
    using assms(1) by (intro c_str_terminated cesu8_of_utf8_nonzero)
  ultimately show ?thesis using False
    unfolding as_cesu8_text_def n Let_def by simp
qed

lemma as_utf8_text_eq:
  assumes "0 \<notin> set c" and "length c < SIZE_RANGE" and "0 \<notin> set (utf8_of_cesu8 c)"
  shows "as_utf8_text c = utf8_of_cesu8 c"
proof (cases "cesu8_smp_count c = 0")
  case True
  with assms(1) show ?thesis
    by (simp add: as_utf8_text_def u8j_utf8_len_count utf8_of_cesu8_plain
             del: u8j_utf8_len.simps)
next
  case False
  then have lt: "2 * cesu8_smp_count c < length c" by (rule cesu8_smp_count_strict)
  have n: "u8j_utf8_len (Some c) = length c - 2 * cesu8_smp_count c"
    using assms(1,2) False lt
    by (simp add: u8j_utf8_len_count size_sub_small mult.commute del: u8j_utf8_len.simps)
  have "u8j_write_utf8 c = utf8_of_cesu8 c @ [0]"
    unfolding u8j_write_utf8_def using assms(1) by (simp add: u8j_write_utf8_loop_eq)
  moreover have "c_str (utf8_of_cesu8 c @ [0]) = utf8_of_cesu8 c"
    using assms(3) by (rule c_str_terminated)
  ultimately show ?thesis using lt
    unfolding as_utf8_text_def n Let_def by simp
qed

subsection \<open>Round trip\<close>

lemma cesu8_of_utf8_starts_pair:
  assumes "u8j__is_utf8_smp s"
  shows "byte_at (cesu8_of_utf8 s) 0 = 0xed" and "byte_at (cesu8_of_utf8 s) 1 AND 0xf0 = 0xa0"
  using smp_becomes_pair [OF assms, of "cesu8_of_utf8 (drop 4 s)"] assms
  by (simp_all add: cesu8_of_utf8_smp u8j__is_cesu8_smp_def)

lemma cesu8_of_utf8_head:
  assumes "byte_at (cesu8_of_utf8 s) 0 = b" and "b \<noteq> 0"
    and "b \<noteq> 0xed \<or> byte_at (cesu8_of_utf8 s) 1 AND 0xf0 \<noteq> 0xa0"
  obtains t where "s = b # t" and "cesu8_of_utf8 s = b # cesu8_of_utf8 t"
proof -
  from assms(1,3) have n: "\<not> u8j__is_utf8_smp s"
    using cesu8_of_utf8_starts_pair [of s] by auto
  from assms(1,2) have "s \<noteq> []" by auto
  then obtain x t where s: "s = x # t" by (cases s) auto
  with n have e: "cesu8_of_utf8 s = x # cesu8_of_utf8 t" by (simp add: cesu8_of_utf8_Cons)
  with assms(1) have "x = b" by simp
  with s e that show thesis by simp
qed

lemma pair_not_made_by_encoding:
  assumes "u8j__is_cesu8_smp (x # cesu8_of_utf8 xs)"
  shows "u8j__is_cesu8_smp (x # xs)"
proof -
  from assms have x: "x = 0xed"
    and p0: "byte_at (cesu8_of_utf8 xs) 0 AND 0xf0 = 0xa0"
    and p1: "byte_at (cesu8_of_utf8 xs) 1 AND 0xc0 = 0x80"
    and p2: "byte_at (cesu8_of_utf8 xs) 2 = 0xed"
    and p3: "byte_at (cesu8_of_utf8 xs) 3 AND 0xf0 = 0xb0"
    and p4: "byte_at (cesu8_of_utf8 xs) 4 AND 0xc0 = 0x80"
    by (simp_all add: u8j__is_cesu8_smp_def)
  define a where "a = byte_at (cesu8_of_utf8 xs) 0"
  have "a \<noteq> 0" "a \<noteq> 0xed" using p0 unfolding a_def by auto
  then obtain t1 where t1: "xs = a # t1" "cesu8_of_utf8 xs = a # cesu8_of_utf8 t1"
    using cesu8_of_utf8_head [of xs a] a_def by blast
  define b where "b = byte_at (cesu8_of_utf8 t1) 0"
  have q1: "b AND 0xc0 = 0x80" using p1 t1(2) by (simp add: b_def)
  then have "b \<noteq> 0" "b \<noteq> 0xed" by auto
  then obtain t2 where t2: "t1 = b # t2" "cesu8_of_utf8 t1 = b # cesu8_of_utf8 t2"
    using cesu8_of_utf8_head [of t1 b] b_def by blast
  have q2: "byte_at (cesu8_of_utf8 t2) 0 = 0xed" using p2 t1(2) t2(2) by simp
  have q3: "byte_at (cesu8_of_utf8 t2) 1 AND 0xf0 = 0xb0" using p3 t1(2) t2(2) by simp
  then have "byte_at (cesu8_of_utf8 t2) 1 AND 0xf0 \<noteq> 0xa0" by simp
  then obtain t3 where t3: "t2 = 0xed # t3" "cesu8_of_utf8 t2 = 0xed # cesu8_of_utf8 t3"
    using cesu8_of_utf8_head [of t2 "0xed"] q2 by auto
  define d where "d = byte_at (cesu8_of_utf8 t3) 0"
  have q3': "d AND 0xf0 = 0xb0" using q3 t3(2) by (simp add: d_def)
  then have "d \<noteq> 0" "d \<noteq> 0xed" by auto
  then obtain t4 where t4: "t3 = d # t4" "cesu8_of_utf8 t3 = d # cesu8_of_utf8 t4"
    using cesu8_of_utf8_head [of t3 d] d_def by blast
  define e where "e = byte_at (cesu8_of_utf8 t4) 0"
  have q4: "e AND 0xc0 = 0x80" using p4 t1(2) t2(2) t3(2) t4(2) by (simp add: e_def)
  then have "e \<noteq> 0" "e \<noteq> 0xed" by auto
  then obtain t5 where t5: "t4 = e # t5" "cesu8_of_utf8 t4 = e # cesu8_of_utf8 t5"
    using cesu8_of_utf8_head [of t4 e] e_def by blast
  have "x # xs = 0xed # a # b # 0xed # d # e # t5"
    using x t1(1) t2(1) t3(1) t4(1) t5(1) by simp
  moreover have "a AND 0xf0 = 0xa0" using p0 by (simp add: a_def)
  ultimately show ?thesis using q1 q3' q4 by (simp add: u8j__is_cesu8_smp_def)
qed

lemma cesu8_smp_count_drop: "cesu8_smp_count s = 0 \<Longrightarrow> cesu8_smp_count (drop n s) = 0"
proof (induction n arbitrary: s)
  case 0
  then show ?case by simp
next
  case (Suc n)
  then show ?case by (cases s) (simp_all add: cesu8_smp_count_Cons)
qed

lemma cesu8_smp_count_none: "cesu8_smp_count s = 0 \<Longrightarrow> \<not> u8j__is_cesu8_smp s"
  using cesu8_smp_nonempty [of s] by (cases s) (auto simp: cesu8_smp_count_Cons)

lemma utf8_of_cesu8_of_utf8:
  "cesu8_smp_count s = 0 \<Longrightarrow> utf8_of_cesu8 (cesu8_of_utf8 s) = s"
proof (induction s rule: cesu8_of_utf8.induct)
  case (1 s)
  show ?case
  proof (cases s)
    case Nil
    then show ?thesis by simp
  next
    case (Cons x xs)
    show ?thesis
    proof (cases "u8j__is_utf8_smp s")
      case True
      have "cesu8_smp_count (drop 4 s) = 0" using "1.prems" by (rule cesu8_smp_count_drop)
      with True Cons have ih: "utf8_of_cesu8 (cesu8_of_utf8 (drop 4 s)) = drop 4 s"
        by (intro "1.IH"(1)) auto
      have "utf8_of_cesu8 (cesu8_of_smp s @ cesu8_of_utf8 (drop 4 s)) =
          utf8_of_pair (cesu8_of_smp s @ cesu8_of_utf8 (drop 4 s)) @
          utf8_of_cesu8 (drop 6 (cesu8_of_smp s @ cesu8_of_utf8 (drop 4 s)))"
        using True by (intro utf8_of_cesu8_smp smp_becomes_pair)
      also have "\<dots> = take 4 s @ drop 4 s"
        using True by (simp add: pair_becomes_smp ih)
      finally show ?thesis using True by (simp add: cesu8_of_utf8_smp)
    next
      case False
      from "1.prems" Cons have c: "cesu8_smp_count xs = 0" and n: "\<not> u8j__is_cesu8_smp (x # xs)"
        by (simp_all add: cesu8_smp_count_Cons split: if_splits)
      from c False Cons have ih: "utf8_of_cesu8 (cesu8_of_utf8 (tl s)) = tl s"
        by (intro "1.IH"(2)) auto
      from n have "\<not> u8j__is_cesu8_smp (x # cesu8_of_utf8 xs)"
        using pair_not_made_by_encoding by blast
      with False Cons ih show ?thesis
        by (simp add: cesu8_of_utf8_Cons utf8_of_cesu8_Cons)
    qed
  qed
qed

lemma smiley_plain: "cesu8_smp_count [0xf0, 0x9f, 0x98, 0x80] = 0"
  by (simp add: cesu8_smp_count_Cons u8j__is_cesu8_smp_def)

lemma as_cesu8_text_returned:
  "u8j__as_cesu8 oom (Some s) bufsiz = Inr r \<Longrightarrow> text_of r = Some (as_cesu8_text s)"
  by (auto simp: as_cesu8_text_def Let_def split: if_splits simp del: u8j_cesu8_len.simps)

lemma as_utf8_text_returned:
  "u8j__as_utf8 oom (Some s) bufsiz = Inr r \<Longrightarrow> text_of r = Some (as_utf8_text s)"
  by (auto simp: as_utf8_text_def Let_def split: if_splits simp del: u8j_utf8_len.simps)

text \<open>
  Claim C3. A UTF-8 string converted to CESU-8 (\<open>u8j_cesu8_len\<close>, then
  \<open>u8j_write_cesu8\<close> or the input itself when the length is 0) and converted back to
  UTF-8 (\<open>u8j_utf8_len\<close>, then \<open>u8j_write_utf8\<close> or the input itself) is the string
  it was, byte for byte; and a string without a special sequence of the source encoding
  passes through a conversion unchanged. The string is a C string (no NUL inside), it is
  UTF-8 in that the six-byte surrogate-pair pattern of CESU-8 occurs nowhere in it, and
  its CESU-8 length fits \<open>size_t\<close>.
\<close>

theorem transcoding_round_trip:
  "(0 \<notin> set s \<and> cesu8_smp_count s = 0 \<and> length s + 2 * utf8_smp_count s < SIZE_RANGE \<longrightarrow>
      as_utf8_text (as_cesu8_text s) = s) \<and>
   (0 \<notin> set s \<and> utf8_smp_count s = 0 \<longrightarrow> as_cesu8_text s = s) \<and>
   (0 \<notin> set s \<and> cesu8_smp_count s = 0 \<longrightarrow> as_utf8_text s = s)"
proof (intro conjI impI)
  assume a: "0 \<notin> set s \<and> cesu8_smp_count s = 0 \<and> length s + 2 * utf8_smp_count s < SIZE_RANGE"
  then have enc: "as_cesu8_text s = cesu8_of_utf8 s" by (simp add: as_cesu8_text_eq)
  from a have rt: "utf8_of_cesu8 (cesu8_of_utf8 s) = s" by (simp add: utf8_of_cesu8_of_utf8)
  have "as_utf8_text (cesu8_of_utf8 s) = utf8_of_cesu8 (cesu8_of_utf8 s)"
    using a by (intro as_utf8_text_eq) (simp_all add: cesu8_of_utf8_nonzero length_cesu8_of_utf8 rt)
  with enc rt show "as_utf8_text (as_cesu8_text s) = s" by simp
next
  assume "0 \<notin> set s \<and> utf8_smp_count s = 0"
  then show "as_cesu8_text s = s"
    by (simp add: as_cesu8_text_def u8j_cesu8_len_count del: u8j_cesu8_len.simps)
next
  assume "0 \<notin> set s \<and> cesu8_smp_count s = 0"
  then show "as_utf8_text s = s"
    by (simp add: as_utf8_text_def u8j_utf8_len_count del: u8j_utf8_len.simps)
qed

theorem transcoding_round_trip_witness:
  "as_utf8_text (as_cesu8_text [0xf0, 0x9f, 0x98, 0x80]) = [0xf0, 0x9f, 0x98, 0x80] \<and>
   as_cesu8_text [0x61] = [0x61] \<and>
   as_utf8_text [0x61] = [0x61]"
  using transcoding_round_trip [of "[0xf0, 0x9f, 0x98, 0x80]"] transcoding_round_trip [of "[0x61]"]
  by (simp add: smiley_counts smiley_plain SIZE_RANGE_def)

section \<open>Properties of the Call Bridge\<close>

subsection \<open>Auxiliary facts\<close>

lemma js_top_push [simp]: "js_top (js_push J v) = v"
  by (simp add: js_top_def js_push_def)

lemma last_error_push [simp]: "last_error_string (js_push J v) = last_error_string J"
  by (simp add: js_push_def)

lemma pushStatus_ok:
  "0 \<le> err \<Longrightarrow> pushStatus H J err = js_push J (JBoolean True)"
  by (simp add: pushStatus_def handledAsError_def)

lemma pushStatus_err:
  "err < 0 \<Longrightarrow> pushStatus H J err = js_push (set_last_error H J err None) JUndefined"
  by (simp add: pushStatus_def handledAsError_def)

lemma and_then_Inr_iff:
  "and_then x f = Inr y \<longleftrightarrow> (\<exists>v. x = Inr v \<and> f v = Inr y)"
  by (cases x) (simp_all add: and_then_def)

lemma and_then_Inr [simp]: "and_then (Inr v) f = f v"
  by (simp add: and_then_def)

lemma and_then_Inl [simp]: "and_then (Inl e) f = Inl e"
  by (simp add: and_then_def)

lemma js_tostring_cases:
  "(\<exists>s. js_tostring E v = Inr s) \<or> js_tostring E v = Inl (Raised Throw_Engine)"
  by (simp add: js_tostring_def split: jsval.splits option.splits)

lemma commandv_loop_fail:
  assumes "len - 1 \<le> length args" and "i \<le> k" and "k < len - 1"
    and "js_tostring E (js_index J (k + 1)) = Inl e"
  shows "commandv_loop E J len i args = Inl (Raised Throw_Engine)"
  using assms
proof (induction E J len i args rule: commandv_loop.induct)
  case (1 E J len i args)
  from "1.prems" have lt: "i < len - 1" and ilen: "i < length args" by auto
  show ?case
  proof (cases "js_tostring E (js_index J (i + 1))")
    case (Inl e')
    with js_tostring_cases [of E "js_index J (i + 1)"] have "e' = Raised Throw_Engine" by auto
    with Inl lt show ?thesis by (subst commandv_loop.simps) simp
  next
    case (Inr s)
    with "1.prems" have ne: "k \<noteq> i" by auto
    have st: "store args i (Str s) = Inr (args[i := Str s])"
      using ilen by (simp add: store_def)
    have "commandv_loop E J len (i + 1) (args[i := Str s]) = Inl (Raised Throw_Engine)"
      using "1.IH" [OF lt, of "args[i := Str s]"] "1.prems" ne by simp
    with Inr lt st show ?thesis by (subst commandv_loop.simps) simp
  qed
qed

lemma commandv_loop_ok:
  assumes "len - 1 \<le> length args" and "i \<le> len - 1"
    and "\<forall>k. i \<le> k \<and> k < len - 1 \<longrightarrow> js_tostring E (js_index J (k + 1)) = Inr (f k)"
  shows "commandv_loop E J len i args =
           Inr (len - 1, take i args @ map (\<lambda>k. Str (f k)) [i..<len - 1] @ drop (len - 1) args)"
  using assms
proof (induction E J len i args rule: commandv_loop.induct)
  case (1 E J len i args)
  show ?case
  proof (cases "i < len - 1")
    case False
    with "1.prems" have "i = len - 1" by simp
    with False show ?thesis by (subst commandv_loop.simps) simp
  next
    case True
    with "1.prems" have ilen: "i < length args" by simp
    from "1.prems" True have c: "js_tostring E (js_index J (i + 1)) = Inr (f i)" by simp
    have st: "store args i (Str (f i)) = Inr (args[i := Str (f i)])"
      using ilen by (simp add: store_def)
    have ih: "commandv_loop E J len (i + 1) (args[i := Str (f i)]) =
        Inr (len - 1, take (i + 1) (args[i := Str (f i)]) @ map (\<lambda>k. Str (f k)) [i + 1..<len - 1]
                      @ drop (len - 1) (args[i := Str (f i)]))"
      using "1.IH" [OF True, of "args[i := Str (f i)]"] "1.prems" True by simp
    have t: "take (i + 1) (args[i := Str (f i)]) = take i args @ [Str (f i)]"
      using ilen by (simp add: take_Suc_conv_app_nth)
    have d: "drop (len - 1) (args[i := Str (f i)]) = drop (len - 1) args"
      using True by simp
    have u: "[i..<len - 1] = i # [i + 1..<len - 1]"
      using True by (simp add: upt_conv_Cons)
    from ih t d u c st True show ?thesis
      by (subst commandv_loop.simps) simp
  qed
qed

lemma vector_of_strs: "vector_of (map Str xs @ Null_pointer # rest) = Some xs"
  by (induction xs) simp_all

lemma call_state_index [simp]:
  "js_index call_state 1 = JString (lit ''pause'')"
  "js_index call_state 2 = JNumber (Finite 42)"
  "js_index call_state 3 = JUndefined"
  "js_index call_state (Suc 0) = JString (lit ''pause'')"
  "js_index call_state (Suc (Suc 0)) = JNumber (Finite 42)"
  "js_gettop call_state = 3"
  by (simp_all add: js_index_def call_state_def js_gettop_def)

lemma js_tostring_JString [simp]: "js_tostring E (JString s) = Inr (u_js_tostring s)"
  by (simp add: js_tostring_def)

lemma js_tonumber_JNumber [simp]: "js_tonumber E (JNumber d) = Inr d"
  by (simp add: js_tonumber_def)

lemma quiet_engine_conv [simp]:
  "js_tostring quiet_engine (JNumber d) = Inr (u_js_tostring [])"
  "js_tostring quiet_engine JUndefined = Inr (u_js_tostring [])"
  "js_tonumber quiet_engine (JString s) = Inr (Finite 0)"
  "js_tonumber quiet_engine JUndefined = Inr (Finite 0)"
  by (simp_all add: js_tostring_def js_tonumber_def quiet_engine_def)

lemma host_answering_simps [simp]:
  "error_text (host_answering st) e = lit ''property not found''"
  "mpv_command_string (host_answering st) cmd = st"
  "mpv_command (host_answering st) args = st"
  "mpv_command_node (host_answering st) node = (st, MPV_FORMAT_FLAG True)"
  "mpv_set_property_string (host_answering st) name val = st"
  "mpv_set_property_flag (host_answering st) name b = st"
  "mpv_set_property_double (host_answering st) name d = st"
  "mpv_set_property_node (host_answering st) name node = st"
  "mpv_get_property_string (host_answering st) name = (st, lit ''yes'')"
  "mpv_get_property_osd_string (host_answering st) name = (st, lit ''yes'')"
  "mpv_get_property_flag (host_answering st) name = (st, 1)"
  "mpv_get_property_double (host_answering st) name = (st, Finite 7)"
  "mpv_get_property_node (host_answering st) name = (st, MPV_FORMAT_FLAG True)"
  "mpv_observe_property (host_answering st) d name f = st"
  "mpv_unobserve_property (host_answering st) d = st"
  "mpv_event_name (host_answering st) n = None"
  "mpv_request_event (host_answering st) i b = st"
  "log_level (host_answering st) level = Some 0"
  "mpv_request_log_messages (host_answering st) level = st"
  by (simp_all add: host_answering_def)


subsection \<open>The status convention\<close>

text \<open>
  Claim C8. A call made through \<open>pushStatus\<close> returns boolean true when the host's
  status is not negative; when the status is negative it returns undefined and
  \<open>mp.last_error_string\<close> holds the host's text for that status. Each boolean-status
  bridge function, when it returns, has returned what \<open>pushStatus\<close> made of the status of
  its host call.
\<close>

theorem boolean_status_calls:
  "(0 \<le> err \<longrightarrow> js_top (pushStatus H J err) = JBoolean True) \<and>
   (err < 0 \<longrightarrow>
      js_top (pushStatus H J err) = JUndefined \<and>
      last_error_string (pushStatus H J err) = JString (u_js_pushstring (error_text H err))) \<and>
   (\<forall>J'. script_command H E J = Inr J' \<longrightarrow>
      (\<exists>cmd. J' = pushStatus H J (mpv_command_string H cmd))) \<and>
   (\<forall>J'. script_set_property H E J = Inr J' \<longrightarrow>
      (\<exists>name val. J' = pushStatus H J (mpv_set_property_string H name val))) \<and>
   (\<forall>J'. script_set_property_bool H E J = Inr J' \<longrightarrow>
      (\<exists>name v. J' = pushStatus H J (mpv_set_property_flag H name v))) \<and>
   (\<forall>J'. script_set_property_number H E J = Inr J' \<longrightarrow>
      (\<exists>name v. J' = pushStatus H J (mpv_set_property_double H name v))) \<and>
   (\<forall>J'. script_set_property_native H E J = Inr J' \<longrightarrow>
      (\<exists>name node. J' = pushStatus H J (mpv_set_property_node H name node))) \<and>
   (\<forall>J'. script__observe_property H E J = Inr J' \<longrightarrow>
      (\<exists>id name format. J' = pushStatus H J (mpv_observe_property H id name format))) \<and>
   (\<forall>J'. script__unobserve_property H E J = Inr J' \<longrightarrow>
      (\<exists>id. J' = pushStatus H J (mpv_unobserve_property H id))) \<and>
   (\<forall>J'. script__request_event H E J = Inr J' \<longrightarrow>
      (\<exists>event_id enable. J' = pushStatus H J (mpv_request_event H event_id enable))) \<and>
   (\<forall>J'. script_enable_messages H E J = Inr J' \<longrightarrow>
      (\<exists>level. J' = pushStatus H J (mpv_request_log_messages H level))) \<and>
   (\<forall>J'. script_commandv H E J = Inr J' \<longrightarrow>
      (\<exists>args. J' = pushStatus H J (mpv_command H args)))"
proof -
  have a: "0 \<le> err \<longrightarrow> js_top (pushStatus H J err) = JBoolean True"
    by (simp add: pushStatus_ok)
  have b: "err < 0 \<longrightarrow>
      js_top (pushStatus H J err) = JUndefined \<and>
      last_error_string (pushStatus H J err) = JString (u_js_pushstring (error_text H err))"
    by (simp add: pushStatus_err set_last_error_def mpv_error_string_def)
  have c1: "\<forall>J'. script_command H E J = Inr J' \<longrightarrow>
      (\<exists>cmd. J' = pushStatus H J (mpv_command_string H cmd))"
    by (auto simp: script_command_def and_then_Inr_iff)
  have c2: "\<forall>J'. script_set_property H E J = Inr J' \<longrightarrow>
      (\<exists>name val. J' = pushStatus H J (mpv_set_property_string H name val))"
    by (auto simp: script_set_property_def and_then_Inr_iff)
  have c3: "\<forall>J'. script_set_property_bool H E J = Inr J' \<longrightarrow>
      (\<exists>name v. J' = pushStatus H J (mpv_set_property_flag H name v))"
    by (auto simp: script_set_property_bool_def and_then_Inr_iff Let_def)
  have c4: "\<forall>J'. script_set_property_number H E J = Inr J' \<longrightarrow>
      (\<exists>name v. J' = pushStatus H J (mpv_set_property_double H name v))"
    by (auto simp: script_set_property_number_def and_then_Inr_iff)
  have c5: "\<forall>J'. script_set_property_native H E J = Inr J' \<longrightarrow>
      (\<exists>name node. J' = pushStatus H J (mpv_set_property_node H name node))"
    by (auto simp: script_set_property_native_def and_then_Inr_iff Let_def)
  have c6: "\<forall>J'. script__observe_property H E J = Inr J' \<longrightarrow>
      (\<exists>id name format. J' = pushStatus H J (mpv_observe_property H id name format))"
    by (auto simp: script__observe_property_def and_then_Inr_iff)
  have c7: "\<forall>J'. script__unobserve_property H E J = Inr J' \<longrightarrow>
      (\<exists>id. J' = pushStatus H J (mpv_unobserve_property H id))"
    by (auto simp: script__unobserve_property_def and_then_Inr_iff)
  have c8: "\<forall>J'. script__request_event H E J = Inr J' \<longrightarrow>
      (\<exists>event_id enable. J' = pushStatus H J (mpv_request_event H event_id enable))"
    by (auto simp: script__request_event_def and_then_Inr_iff Let_def)
  have c9: "\<forall>J'. script_enable_messages H E J = Inr J' \<longrightarrow>
      (\<exists>level. J' = pushStatus H J (mpv_request_log_messages H level))"
    by (auto simp: script_enable_messages_def and_then_Inr_iff)
  have c10: "\<forall>J'. script_commandv H E J = Inr J' \<longrightarrow>
      (\<exists>args. J' = pushStatus H J (mpv_command H args))"
    by (auto simp: script_commandv_def and_then_Inr_iff Let_def js_error_def
             split: if_splits option.splits prod.splits)
  from a b c1 c2 c3 c4 c5 c6 c7 c8 c9 c10 show ?thesis by blast
qed


theorem boolean_status_calls_witness:
  "js_top (pushStatus (host_answering 0) call_state 0) = JBoolean True \<and>
   js_top (pushStatus (host_answering (- 8)) call_state (- 8)) = JUndefined \<and>
   last_error_string (pushStatus (host_answering (- 8)) call_state (- 8)) =
     JString (u_js_pushstring (lit ''property not found'')) \<and>
   script_command (host_answering 0) quiet_engine call_state =
     Inr (pushStatus (host_answering 0) call_state 0) \<and>
   script_set_property (host_answering 0) quiet_engine call_state =
     Inr (pushStatus (host_answering 0) call_state 0) \<and>
   script_set_property_bool (host_answering 0) quiet_engine call_state =
     Inr (pushStatus (host_answering 0) call_state 0) \<and>
   script_set_property_number (host_answering 0) quiet_engine call_state =
     Inr (pushStatus (host_answering 0) call_state 0) \<and>
   script_set_property_native (host_answering 0) quiet_engine call_state =
     Inr (pushStatus (host_answering 0) call_state 0) \<and>
   script__observe_property (host_answering 0) quiet_engine call_state =
     Inr (pushStatus (host_answering 0) call_state 0) \<and>
   script__unobserve_property (host_answering 0) quiet_engine call_state =
     Inr (pushStatus (host_answering 0) call_state 0) \<and>
   script__request_event (host_answering 0) quiet_engine call_state =
     Inr (pushStatus (host_answering 0) call_state 0) \<and>
   script_enable_messages (host_answering 0) quiet_engine call_state =
     Inr (pushStatus (host_answering 0) call_state 0) \<and>
   script_commandv (host_answering 0) quiet_engine call_state =
     Inr (pushStatus (host_answering 0) call_state 0)"
proof -
  have cv: "script_commandv (host_answering 0) quiet_engine call_state =
     Inr (pushStatus (host_answering 0) call_state 0)"
  proof -
    have "commandv_loop quiet_engine call_state 3 0 (replicate 51 Uninitialised) =
        Inr (3 - 1, take 0 (replicate 51 Uninitialised) @
                    map (\<lambda>k. Str ((\<lambda>k. if k = 0 then u_js_tostring (lit ''pause'')
                                        else u_js_tostring []) k)) [0..<3 - 1] @
                    drop (3 - 1) (replicate 51 Uninitialised))"
      by (rule commandv_loop_ok)
         (auto simp: less_Suc_eq numeral_2_eq_2 numeral_3_eq_3 js_index_def call_state_def
                     js_tostring_def quiet_engine_def)
    then have l: "commandv_loop quiet_engine call_state 3 0 (replicate 51 Uninitialised) =
        Inr (2, Str (u_js_tostring (lit ''pause'')) # Str (u_js_tostring [])
                # replicate 49 Uninitialised)"
      by (simp add: upt_conv_Cons)
    have s: "store (Str (u_js_tostring (lit ''pause'')) # Str (u_js_tostring [])
                # replicate 49 Uninitialised) 2 Null_pointer =
       Inr (Str (u_js_tostring (lit ''pause'')) # Str (u_js_tostring [])
                # Null_pointer # replicate 48 Uninitialised)"
      by (simp add: store_def numeral_eq_Suc)
    show ?thesis
      unfolding script_commandv_def
      by (simp add: MAX_LENGTH_COMMANDV_def l s)
  qed
  from boolean_status_calls [of 0 "host_answering 0" call_state quiet_engine]
       boolean_status_calls [of "- 8" "host_answering (- 8)" call_state quiet_engine]
  show ?thesis
    by (simp add: cv script_command_def script_set_property_def script_set_property_bool_def
          script_set_property_number_def script_set_property_native_def
          script__observe_property_def script__unobserve_property_def
          script__request_event_def script_enable_messages_def check_loglevel_def)
qed


subsection \<open>script_commandv\<close>

lemma length_lit [simp]: "length (lit s) = length s"
  by (simp add: lit_def)

lemma script_commandv_bad:
  assumes "js_gettop J = 0 \<or> MAX_LENGTH_COMMANDV < js_gettop J"
  shows "script_commandv H E J =
     Inl (Raised (Throw_Error (lit ''Invalid number of arguments. Allowed: 1 - 50'')))"
  using assms by (auto simp: script_commandv_def js_error_def Let_def)

lemma script_commandv_good:
  assumes pos: "0 < js_gettop J" and le: "js_gettop J \<le> MAX_LENGTH_COMMANDV"
    and conv: "\<forall>k. k < js_gettop J - 1 \<longrightarrow> js_tostring E (js_index J (k + 1)) = Inr (f k)"
  shows "script_commandv H E J =
     Inr (pushStatus H J (mpv_command H (map f [0..<js_gettop J - 1])))"
proof -
  let ?len = "js_gettop J"
  let ?args = "replicate (MAX_LENGTH_COMMANDV + 1) Uninitialised"
  from le have le50: "?len \<le> 50" by (simp add: MAX_LENGTH_COMMANDV_def)
  have l: "commandv_loop E J ?len 0 ?args =
      Inr (?len - 1, take 0 ?args @ map (\<lambda>k. Str (f k)) [0..<?len - 1] @ drop (?len - 1) ?args)"
    using le50 conv by (intro commandv_loop_ok) (auto simp: MAX_LENGTH_COMMANDV_def)
  have d: "drop (?len - 1) ?args = Uninitialised # replicate (51 - ?len) Uninitialised"
  proof -
    have "51 - (?len - 1) = Suc (51 - ?len)" using pos le50 by simp
    then show ?thesis by (simp add: MAX_LENGTH_COMMANDV_def)
  qed
  have m: "map (\<lambda>k. Str (f k)) [0..<?len - 1] = map Str (map f [0..<?len - 1])"
    by simp
  have st: "store (map Str (map f [0..<?len - 1]) @ Uninitialised # replicate (51 - ?len) Uninitialised)
             (?len - 1) Null_pointer =
        Inr (map Str (map f [0..<?len - 1]) @ Null_pointer # replicate (51 - ?len) Uninitialised)"
    by (simp add: store_def list_update_append)
  from pos le have g: "\<not> (?len = 0 \<or> MAX_LENGTH_COMMANDV < ?len)" by simp
  show ?thesis
    unfolding script_commandv_def Let_def
    by (simp only: g if_False l d m append_Nil take_0 and_then_Inr prod.case st vector_of_strs
          option.case)
qed

lemma script_commandv_engine_throw:
  assumes pos: "0 < js_gettop J" and le: "js_gettop J \<le> MAX_LENGTH_COMMANDV"
    and k: "k < js_gettop J - 1" and conv: "js_tostring E (js_index J (k + 1)) = Inl e"
  shows "script_commandv H E J = Inl (Raised Throw_Engine)"
proof -
  have "commandv_loop E J (js_gettop J) 0 (replicate (MAX_LENGTH_COMMANDV + 1) Uninitialised)
          = Inl (Raised Throw_Engine)"
    using le k conv by (intro commandv_loop_fail [where k = k and e = e])
                       (auto simp: MAX_LENGTH_COMMANDV_def)
  with pos le show ?thesis
    by (simp add: script_commandv_def Let_def)
qed

lemma js_tostring_quiet: "\<exists>s. js_tostring quiet_engine v = Inr s"
  by (cases v) (simp_all add: js_tostring_def quiet_engine_def)


text \<open>
  Claim C10. \<open>script_commandv\<close> raises its error about the number of arguments exactly
  when the stack height is zero or above \<open>MAX_LENGTH_COMMANDV\<close>. Otherwise it never
  writes outside its array of 51 slots, and when it returns it has passed the host a
  vector of the converted arguments, one per positional argument and at most 49, and
  returned what \<open>pushStatus\<close> made of the host's status; it does return whenever the
  engine converts every argument.
\<close>

theorem script_commandv_arguments:
  "(script_commandv H E J =
      Inl (Raised (Throw_Error (lit ''Invalid number of arguments. Allowed: 1 - 50'')))
    \<longleftrightarrow> js_gettop J = 0 \<or> MAX_LENGTH_COMMANDV < js_gettop J) \<and>
   script_commandv H E J \<noteq> Inl Out_of_bounds \<and>
   (\<forall>J'. script_commandv H E J = Inr J' \<longrightarrow>
      (\<exists>args. length args = js_gettop J - 1 \<and> length args \<le> 49 \<and>
         (\<forall>k. k < length args \<longrightarrow> js_tostring E (js_index J (k + 1)) = Inr (args ! k)) \<and>
         J' = pushStatus H J (mpv_command H args))) \<and>
   (0 < js_gettop J \<and> js_gettop J \<le> MAX_LENGTH_COMMANDV \<and>
    (\<forall>k. k < js_gettop J - 1 \<longrightarrow> (\<exists>s. js_tostring E (js_index J (k + 1)) = Inr s))
    \<longrightarrow> (\<exists>J'. script_commandv H E J = Inr J'))"
proof (cases "js_gettop J = 0 \<or> MAX_LENGTH_COMMANDV < js_gettop J")
  case True
  from script_commandv_bad [OF True, of H E] True show ?thesis by auto
next
  case False
  then have pos: "0 < js_gettop J" and le: "js_gettop J \<le> MAX_LENGTH_COMMANDV" by auto
  show ?thesis
  proof (cases "\<forall>k. k < js_gettop J - 1 \<longrightarrow> (\<exists>s. js_tostring E (js_index J (k + 1)) = Inr s)")
    case True
    then obtain f where
      f: "\<forall>k. k < js_gettop J - 1 \<longrightarrow> js_tostring E (js_index J (k + 1)) = Inr (f k)"
      by metis
    let ?args = "map f [0..<js_gettop J - 1]"
    have r: "script_commandv H E J = Inr (pushStatus H J (mpv_command H ?args))"
      by (rule script_commandv_good [OF pos le f])
    have a: "length ?args = js_gettop J - 1" by simp
    have b: "length ?args \<le> 49" using le by (simp add: MAX_LENGTH_COMMANDV_def)
    have c: "\<forall>k. k < length ?args \<longrightarrow> js_tostring E (js_index J (k + 1)) = Inr (?args ! k)"
      using f by simp
    have c3: "\<forall>J'. script_commandv H E J = Inr J' \<longrightarrow>
      (\<exists>args. length args = js_gettop J - 1 \<and> length args \<le> 49 \<and>
         (\<forall>k. k < length args \<longrightarrow> js_tostring E (js_index J (k + 1)) = Inr (args ! k)) \<and>
         J' = pushStatus H J (mpv_command H args))"
    proof (intro allI impI)
      fix J' assume "script_commandv H E J = Inr J'"
      with r have "J' = pushStatus H J (mpv_command H ?args)" by simp
      with a b c show "\<exists>args. length args = js_gettop J - 1 \<and> length args \<le> 49 \<and>
         (\<forall>k. k < length args \<longrightarrow> js_tostring E (js_index J (k + 1)) = Inr (args ! k)) \<and>
         J' = pushStatus H J (mpv_command H args)" by blast
    qed
    have c1: "script_commandv H E J =
      Inl (Raised (Throw_Error (lit ''Invalid number of arguments. Allowed: 1 - 50'')))
      \<longleftrightarrow> js_gettop J = 0 \<or> MAX_LENGTH_COMMANDV < js_gettop J"
      using r False by simp
    have c2: "script_commandv H E J \<noteq> Inl Out_of_bounds" using r by simp
    have c4: "\<exists>J'. script_commandv H E J = Inr J'" using r by simp
    from c1 c2 c3 c4 show ?thesis by blast
  next
    case nall: False
    then obtain k where k: "k < js_gettop J - 1"
      and nk: "\<not> (\<exists>s. js_tostring E (js_index J (k + 1)) = Inr s)" by blast
    from nk obtain e where "js_tostring E (js_index J (k + 1)) = Inl e"
      by (cases "js_tostring E (js_index J (k + 1))") auto
    from script_commandv_engine_throw [OF pos le k this, of H]
    have "script_commandv H E J = Inl (Raised Throw_Engine)" .
    with False nall show ?thesis by simp
  qed
qed

theorem script_commandv_arguments_witness:
  "script_commandv (host_answering 0) quiet_engine \<lparr>stack = [], last_error_string = JUndefined\<rparr> =
     Inl (Raised (Throw_Error (lit ''Invalid number of arguments. Allowed: 1 - 50''))) \<and>
   (\<exists>J' args. script_commandv (host_answering 0) quiet_engine call_state = Inr J' \<and>
      length args = 2 \<and>
      J' = pushStatus (host_answering 0) call_state (mpv_command (host_answering 0) args))"
proof -
  have a: "script_commandv (host_answering 0) quiet_engine
             \<lparr>stack = [], last_error_string = JUndefined\<rparr> =
     Inl (Raised (Throw_Error (lit ''Invalid number of arguments. Allowed: 1 - 50'')))"
    using script_commandv_arguments
            [of "host_answering 0" quiet_engine "\<lparr>stack = [], last_error_string = JUndefined\<rparr>"]
    by (simp add: js_gettop_def)
  have h: "0 < js_gettop call_state \<and> js_gettop call_state \<le> MAX_LENGTH_COMMANDV \<and>
    (\<forall>k. k < js_gettop call_state - 1 \<longrightarrow>
          (\<exists>s. js_tostring quiet_engine (js_index call_state (k + 1)) = Inr s))"
    by (simp add: MAX_LENGTH_COMMANDV_def js_tostring_quiet)
  from script_commandv_arguments [of "host_answering 0" quiet_engine call_state] h
  obtain J' where r: "script_commandv (host_answering 0) quiet_engine call_state = Inr J'"
    by blast
  with script_commandv_arguments [of "host_answering 0" quiet_engine call_state]
  obtain args where "length args = js_gettop call_state - 1"
    and "J' = pushStatus (host_answering 0) call_state (mpv_command (host_answering 0) args)"
    by blast
  with r have "\<exists>J' args. script_commandv (host_answering 0) quiet_engine call_state = Inr J' \<and>
      length args = 2 \<and>
      J' = pushStatus (host_answering 0) call_state (mpv_command (host_answering 0) args)"
    by (intro exI [of _ J'] exI [of _ args]) simp
  with a show ?thesis by blast
qed


subsection \<open>Calls that accept a default\<close>

lemma handledAsErrDef_failure:
  "\<not> js_isundefined J 2 \<Longrightarrow> err < 0 \<Longrightarrow>
   handledAsErrDef H J err = (js_push (set_last_error H J err None) (js_index J 2), 1)"
  by (simp add: handledAsErrDef_def Let_def js_copy_def set_last_error_def js_index_def)

lemma handledAsErrDef_success:
  "\<not> js_isundefined J 2 \<Longrightarrow> 0 \<le> err \<Longrightarrow>
   handledAsErrDef H J err = (set_last_error H J err None, 0)"
  by (simp add: handledAsErrDef_def Let_def)

lemma last_error_set [simp]:
  "last_error_string (set_last_error H J err None) = JString (u_js_pushstring (mpv_error_string H err))"
  by (simp add: set_last_error_def)

lemma mpv_error_string_neg: "err < 0 \<Longrightarrow> mpv_error_string H err = error_text H err"
  by (simp add: mpv_error_string_def)

lemma mpv_error_string_nonneg: "0 \<le> err \<Longrightarrow> mpv_error_string H err = lit ''success''"
  by (simp add: mpv_error_string_def)

text \<open>The property getters keep the convention of the default-accepting calls.\<close>

lemma getters_with_default:
  assumes d: "\<not> js_isundefined J 2" and n: "js_tostring E (js_index J 1) = Inr name"
  shows "mpv_get_property_double H name = (err, r) \<Longrightarrow>
         \<exists>J'. script_get_property_number H E J = Inr J' \<and>
           js_top J' = (if err < 0 then js_index J 2 else JNumber r) \<and>
           last_error_string J' = JString (u_js_pushstring (mpv_error_string H err))"
    and "mpv_get_property_string H name = (err, s) \<Longrightarrow>
         \<exists>J'. script_get_property H E J = Inr J' \<and>
           js_top J' = (if err < 0 then js_index J 2 else JString (u_js_pushstring s)) \<and>
           last_error_string J' = JString (u_js_pushstring (mpv_error_string H err))"
    and "mpv_get_property_osd_string H name = (err, s) \<Longrightarrow>
         \<exists>J'. script_get_property_osd H E J = Inr J' \<and>
           js_top J' = (if err < 0 then js_index J 2 else JString (u_js_pushstring s)) \<and>
           last_error_string J' = JString (u_js_pushstring (mpv_error_string H err))"
    and "mpv_get_property_flag H name = (err, b) \<Longrightarrow>
         \<exists>J'. script_get_property_bool H E J = Inr J' \<and>
           js_top J' = (if err < 0 then js_index J 2 else JBoolean (b \<noteq> 0)) \<and>
           last_error_string J' = JString (u_js_pushstring (mpv_error_string H err))"
    and "mpv_get_property_node H name = (err, node) \<Longrightarrow>
         \<exists>J'. script_get_property_native H E J = Inr J' \<and>
           js_top J' = (if err < 0 then js_index J 2 else pushnode node) \<and>
           last_error_string J' = JString (u_js_pushstring (mpv_error_string H err))"
  using d n
  by (cases "err < 0";
      simp add: script_get_property_number_def script_get_property_def
        script_get_property_osd_def script_get_property_bool_def script_get_property_native_def
        handledAsErrDef_failure handledAsErrDef_success)+

lemma script_command_native_failure:
  assumes "\<not> js_isundefined J 2" 
    and "mpv_command_node H (makenode (cast_out_of_range E) (js_index J 1)) = (err, node)"
    and "err < 0"
  shows "\<exists>J'. script_command_native H E J = Inr J' \<and> js_top J' = js_index J 2 \<and>
           last_error_string J' = JString (u_js_pushstring (error_text H err))"
  using assms
  by (simp add: script_command_native_def Let_def handledAsErrDef_failure mpv_error_string_neg)

lemma script_command_native_success:
  assumes "mpv_command_node H (makenode (cast_out_of_range E) (js_index J 1)) = (err, node)"
    and "0 \<le> err"
  shows "script_command_native H E J = Inl Not_a_js_State"
  using assms
  by (simp add: script_command_native_def Let_def handledAsErrDef_def handledAsError_def)


text \<open>
  Claim C2. With the default 42 at index 2 and a host that answers with status 0,
  \<open>script_command_native\<close> does not return the host's result: it hands \<open>pushnode\<close> its
  talloc context in place of the engine state. \<open>script_get_property_native\<close>, on the
  same input, pushes the result.
\<close>

theorem script_command_native_result_not_pushed:
  "js_index call_state 2 = JNumber (Finite 42) \<and>
   script_command_native (host_answering 0) quiet_engine call_state = Inl Not_a_js_State \<and>
   script_get_property_native (host_answering 0) quiet_engine call_state =
     Inr (js_push (set_last_error (host_answering 0) call_state 0 None)
            (pushnode (MPV_FORMAT_FLAG True)))"
  by (simp add: script_command_native_success [where err = 0 and node = "MPV_FORMAT_FLAG True"]
        script_get_property_native_def handledAsErrDef_success js_isundefined_def)


section \<open>Properties of the Value Marshaller\<close>

subsection \<open>Numbers\<close>



lemma trunc_zero_of_int [simp]: "trunc_zero (of_int n) = n"
  unfolding trunc_zero_def by simp












subsection \<open>Values of other kinds\<close>

text \<open>
  Claim C7, as the source has it. A value that fails every type test of \<open>makenode\<close>
  becomes a node of format none; \<open>makenode\<close> is total and raises nothing. A callable is
  an object for the engine: it passes \<open>js_isobject\<close> and becomes a map of its enumerable
  own properties.
\<close>

theorem makenode_unknown_type:
  "(\<not> js_isundefined_value v \<and> \<not> js_isnull v \<and> \<not> js_isboolean v \<and> \<not> js_isnumber v \<and>
    \<not> js_isstring v \<and> \<not> js_isarray v \<and> \<not> js_isobject v
      \<longrightarrow> makenode oor v = MPV_FORMAT_NONE) \<and>
   (js_iscallable v \<longrightarrow>
      js_isobject v \<and>
      makenode oor v =
        MPV_FORMAT_NODE_MAP
          (map (\<lambda>key. (key, makenode oor (js_getproperty v key))) (get_object_properties v)))"
  by (cases v) simp_all

theorem makenode_unknown_type_witness:
  "makenode x86_cast JForeign = MPV_FORMAT_NONE \<and>
   js_isobject (JCallable []) \<and>
   makenode x86_cast (JCallable []) = MPV_FORMAT_NODE_MAP []"
  using makenode_unknown_type [of JForeign x86_cast] makenode_unknown_type [of "JCallable []" x86_cast]
  by (simp add: get_object_properties_def)


text \<open>Claim C7 as stated fails for a callable: a function without properties becomes an empty map, not none.\<close>

theorem makenode_callable_counterexample:
  "js_iscallable (JCallable []) \<and> makenode x86_cast (JCallable []) \<noteq> MPV_FORMAT_NONE"
  by simp


subsection \<open>Strings across the engine boundary\<close>








subsection \<open>Arrays and objects\<close>










subsection \<open>Round trip\<close>















end
